theory Spec2Isabelle
  imports Main
begin

section \<open>Go string primitives used by bundle-docs\<close>

text \<open>
  Go strings are byte sequences; \<open>string\<close> (a list of 8-bit characters) models them
  byte for byte. The functions below follow the documented behaviour of package
  \<open>strings\<close> for the arguments the program passes.
\<close>

definition hasPrefix :: "string \<Rightarrow> string \<Rightarrow> bool" where
  "hasPrefix s p = (take (length p) s = p)"

definition hasSuffix :: "string \<Rightarrow> string \<Rightarrow> bool" where
  "hasSuffix s p = (length p \<le> length s \<and> drop (length s - length p) s = p)"

definition trimPrefix :: "string \<Rightarrow> string \<Rightarrow> string" where
  "trimPrefix s p = (if hasPrefix s p then drop (length p) s else s)"

definition trimSuffix :: "string \<Rightarrow> string \<Rightarrow> string" where
  "trimSuffix s p = (if hasSuffix s p then take (length s - length p) s else s)"

text \<open>
  \<open>strings.ReplaceAll s old new\<close> for a non-empty \<open>old\<close>: the matches are found from
  the left and do not overlap; the scan resumes after each replaced occurrence.
\<close>

function replaceAll :: "string \<Rightarrow> string \<Rightarrow> string \<Rightarrow> string" where
  "replaceAll [] old new = []"
| "replaceAll (c # cs) old new =
     (if old \<noteq> [] \<and> hasPrefix (c # cs) old
      then new @ replaceAll (drop (length old) (c # cs)) old new
      else c # replaceAll cs old new)"
  by pat_completeness auto
termination
  by (relation "measure (\<lambda>(s, old, new). length s)") (auto simp: neq_Nil_conv)

text \<open>\<open>strings.Join\<close>.\<close>

fun join :: "string list \<Rightarrow> string \<Rightarrow> string" where
  "join [] sep = []"
| "join [x] sep = x"
| "join (x # y # ys) sep = x @ sep @ join (y # ys) sep"

text \<open>
  \<open>strings.Split s sep\<close> for a one-byte separator: \<open>splitAcc\<close> carries the bytes of
  the piece being read; the result always has at least one piece.
\<close>

fun splitAcc :: "char \<Rightarrow> string \<Rightarrow> string \<Rightarrow> string list" where
  "splitAcc sep acc [] = [acc]"
| "splitAcc sep acc (c # cs) =
     (if c = sep then acc # splitAcc sep [] cs else splitAcc sep (acc @ [c]) cs)"

definition split :: "string \<Rightarrow> char \<Rightarrow> string list" where
  "split s sep = splitAcc sep [] s"

text \<open>\<open>strings.SplitN s sep 2\<close>: the part before the first separator and the unsplit rest.\<close>

definition splitN2 :: "string \<Rightarrow> char \<Rightarrow> string list" where
  "splitN2 s sep =
     (if sep \<in> set s
      then [takeWhile (\<lambda>c. c \<noteq> sep) s, tl (dropWhile (\<lambda>c. c \<noteq> sep) s)]
      else [s])"

section \<open>Path Normalizer\<close>

text \<open>\<open>normalizeFilePath\<close> of main.go, statement by statement.\<close>

definition normalizeFilePath :: "string \<Rightarrow> string" where
  "normalizeFilePath file0 =
     (let file1 = replaceAll file0 ''/docs/'' ''/'';
          file2 = trimPrefix file1 ''docs/'';
          file3 = trimSuffix file2 ''.md'';
          file4 = trimSuffix file3 ''/index''
      in file4)"

section \<open>Regular expressions of the Content Normalizer\<close>

text \<open>
  The patterns of main.go are sequences of single-byte items: a literal byte, an optional
  literal byte (\<open>/?\<close>), one byte of a class, a greedy star of a class, a lazy star of
  a class, and the end-of-line assertion \<open>$\<close>. The flag of a class item says whether the
  byte is inside the pattern's capture group 1. The classes are \<open>[^>]\<close>, \<open>.\<close> (no line
  feed), \<open>.\<close> under \<open>(?s)\<close> (any byte) and \<open>\s\<close>, which in Go's syntax is \<open>[\t\n\f\r ]\<close>.

  Package \<open>regexp\<close> returns, at the leftmost position that has a match, the match a
  backtracking search finds first. \<open>rmatch\<close> is that search at one position: it tries
  the alternatives of each item in preference order and answers with the capture and
  the unread rest of the text.
\<close>

datatype cls = NotGt | Dot | DotAll | Space

fun inCls :: "cls \<Rightarrow> char \<Rightarrow> bool" where
  "inCls NotGt c = (c \<noteq> CHR ''>'')"
| "inCls Dot c = (c \<noteq> CHR 0x0A)"
| "inCls DotAll c = True"
| "inCls Space c = (c = CHR 0x09 \<or> c = CHR 0x0A \<or> c = CHR 0x0C \<or> c = CHR 0x0D \<or> c = CHR '' '')"

datatype item = Chr char | Opt char | One cls bool | Star cls bool | Lazy cls bool | Eol

definition lit :: "string \<Rightarrow> item list" where
  "lit s = map Chr s"

fun orElse :: "'a option \<Rightarrow> 'a option \<Rightarrow> 'a option" where
  "orElse (Some x) y = Some x"
| "orElse None y = y"

definition grab :: "bool \<Rightarrow> string \<Rightarrow> char \<Rightarrow> string" where
  "grab g cap x = (if g then cap @ [x] else cap)"

fun rmatch :: "item list \<Rightarrow> string \<Rightarrow> string \<Rightarrow> (string \<times> string) option" where
  "rmatch [] s cap = Some (cap, s)"
| "rmatch (Chr c # r) [] cap = None"
| "rmatch (Chr c # r) (x # xs) cap = (if x = c then rmatch r xs cap else None)"
| "rmatch (Opt c # r) [] cap = rmatch r [] cap"
| "rmatch (Opt c # r) (x # xs) cap =
     orElse (if x = c then rmatch r xs cap else None) (rmatch r (x # xs) cap)"
| "rmatch (One k g # r) [] cap = None"
| "rmatch (One k g # r) (x # xs) cap = (if inCls k x then rmatch r xs (grab g cap x) else None)"
| "rmatch (Star k g # r) [] cap = rmatch r [] cap"
| "rmatch (Star k g # r) (x # xs) cap =
     orElse (if inCls k x then rmatch (Star k g # r) xs (grab g cap x) else None)
            (rmatch r (x # xs) cap)"
| "rmatch (Lazy k g # r) [] cap = rmatch r [] cap"
| "rmatch (Lazy k g # r) (x # xs) cap =
     orElse (rmatch r (x # xs) cap)
            (if inCls k x then rmatch (Lazy k g # r) xs (grab g cap x) else None)"
| "rmatch (Eol # r) [] cap = rmatch r [] cap"
| "rmatch (Eol # r) (x # xs) cap = (if x = CHR 0x0A then rmatch r (x # xs) cap else None)"

text \<open>
  \<open>FindStringSubmatch\<close>: the capture of the leftmost match. \<open>findSubmatchBol\<close> is the
  search for a pattern that starts with \<open>^\<close> under \<open>(?m)\<close>: only the start of the text
  and the positions after a line feed are tried; \<open>bol\<close> says whether the current
  position is one of them.
\<close>

fun findSubmatch :: "item list \<Rightarrow> string \<Rightarrow> string option" where
  "findSubmatch re [] = map_option fst (rmatch re [] [])"
| "findSubmatch re (x # xs) =
     (case rmatch re (x # xs) [] of
        Some (cap, rest) \<Rightarrow> Some cap
      | None \<Rightarrow> findSubmatch re xs)"

fun findSubmatchBol :: "item list \<Rightarrow> bool \<Rightarrow> string \<Rightarrow> string option" where
  "findSubmatchBol re bol [] = (if bol then map_option fst (rmatch re [] []) else None)"
| "findSubmatchBol re bol (x # xs) =
     (case (if bol then rmatch re (x # xs) [] else None) of
        Some (cap, rest) \<Rightarrow> Some cap
      | None \<Rightarrow> findSubmatchBol re (x = CHR 0x0A) xs)"

text \<open>
  \<open>ReplaceAllString\<close> and \<open>FindAllStringSubmatch\<close>: successive matches that do not
  overlap, the search resuming where the previous match ended. A replacement template
  is a prefix and a suffix around \<open>$1\<close>, or a text without \<open>$1\<close>. Every pattern the
  program gives to these two functions starts with the literal \<open><\<close>, so no match is
  empty; at a position whose match would be empty the model moves on by one byte.
\<close>

datatype template = Plain string | Group1 string string

fun expand :: "template \<Rightarrow> string \<Rightarrow> string" where
  "expand (Plain t) cap = t"
| "expand (Group1 pre suf) cap = pre @ cap @ suf"

function replaceAllRe :: "item list \<Rightarrow> template \<Rightarrow> string \<Rightarrow> string" where
  "replaceAllRe re t [] = []"
| "replaceAllRe re t (x # xs) =
     (case rmatch re (x # xs) [] of
        Some (cap, rest) \<Rightarrow>
          if length rest \<le> length xs then expand t cap @ replaceAllRe re t rest
          else x # replaceAllRe re t xs
      | None \<Rightarrow> x # replaceAllRe re t xs)"
  by pat_completeness auto
termination
  by (relation "measure (\<lambda>(re, t, s). length s)") auto

function findAllRe :: "item list \<Rightarrow> string \<Rightarrow> string list" where
  "findAllRe re [] = []"
| "findAllRe re (x # xs) =
     (case rmatch re (x # xs) [] of
        Some (cap, rest) \<Rightarrow>
          if length rest \<le> length xs then cap # findAllRe re rest
          else findAllRe re xs
      | None \<Rightarrow> findAllRe re xs)"
  by pat_completeness auto
termination
  by (relation "measure (\<lambda>(re, s). length s)") auto

text \<open>The patterns, in the order of the \<open>var\<close> block of main.go.\<close>

definition hiddenDivRe :: "item list" where
  "hiddenDivRe = lit ''<div'' @ [Star NotGt False] @ lit ''display:'' @ [Star Space False]
                 @ lit ''none'' @ [Star NotGt False, Chr CHR ''>'', Lazy DotAll True]
                 @ lit ''</div>'' @ [Star Space False]"

definition mdH1Re :: "item list" where
  "mdH1Re = [Chr CHR ''#'', One Space False, Star Space False, One Dot True, Star Dot True, Eol]"

definition h1Re :: "item list" where
  "h1Re = lit ''<h1'' @ [Star NotGt False, Chr CHR ''>'', Lazy Dot True] @ lit ''</h1>''"

definition h2Re :: "item list" where
  "h2Re = lit ''<h2'' @ [Star NotGt False, Chr CHR ''>'', Lazy Dot True] @ lit ''</h2>''"

definition h3Re :: "item list" where
  "h3Re = lit ''<h3'' @ [Star NotGt False, Chr CHR ''>'', Lazy Dot True] @ lit ''</h3>''"

definition htmlTagRe :: "item list" where
  "htmlTagRe = [Chr CHR ''<'', One NotGt False, Star NotGt False, Chr CHR ''>'']"

definition spanRe :: "item list" where
  "spanRe = [Chr CHR ''<'', Opt CHR ''/''] @ lit ''span'' @ [Star NotGt False, Chr CHR ''>'']"

definition brRe :: "item list" where
  "brRe = lit ''<br'' @ [Star Space False, Opt CHR ''/'', Chr CHR ''>'']"

definition kbdRe :: "item list" where
  "kbdRe = lit ''<kbd>'' @ [Lazy Dot True] @ lit ''</kbd>''"

definition supRe :: "item list" where
  "supRe = lit ''<sup>'' @ [Lazy Dot True] @ lit ''</sup>''"

definition strongRe :: "item list" where
  "strongRe = lit ''<strong>'' @ [Lazy Dot True] @ lit ''</strong>''"

definition divRe :: "item list" where
  "divRe = [Chr CHR ''<'', Opt CHR ''/''] @ lit ''div'' @ [Star NotGt False, Chr CHR ''>'']"

section \<open>Content Normalizer\<close>

text \<open>
  \<open>strings.TrimSpace\<close> removes leading and trailing Unicode white space. In UTF-8 the
  white-space code points are the byte sequences of \<open>spaceSeqs\<close>: U+0009 to U+000D,
  U+0020, U+0085, U+00A0, U+1680, U+2000 to U+200A, U+2028, U+2029, U+202F, U+205F
  and U+3000.
\<close>

definition spaceSeqs :: "string list" where
  "spaceSeqs =
     [[CHR 0x09], [CHR 0x0A], [CHR 0x0B], [CHR 0x0C], [CHR 0x0D], [CHR 0x20],
      [CHR 0xC2, CHR 0x85], [CHR 0xC2, CHR 0xA0], [CHR 0xE1, CHR 0x9A, CHR 0x80],
      [CHR 0xE2, CHR 0x80, CHR 0x80], [CHR 0xE2, CHR 0x80, CHR 0x81], [CHR 0xE2, CHR 0x80, CHR 0x82],
      [CHR 0xE2, CHR 0x80, CHR 0x83], [CHR 0xE2, CHR 0x80, CHR 0x84], [CHR 0xE2, CHR 0x80, CHR 0x85],
      [CHR 0xE2, CHR 0x80, CHR 0x86], [CHR 0xE2, CHR 0x80, CHR 0x87], [CHR 0xE2, CHR 0x80, CHR 0x88],
      [CHR 0xE2, CHR 0x80, CHR 0x89], [CHR 0xE2, CHR 0x80, CHR 0x8A], [CHR 0xE2, CHR 0x80, CHR 0xA8],
      [CHR 0xE2, CHR 0x80, CHR 0xA9], [CHR 0xE2, CHR 0x80, CHR 0xAF], [CHR 0xE2, CHR 0x81, CHR 0x9F],
      [CHR 0xE3, CHR 0x80, CHR 0x80]]"

function trimLeftSeqs :: "string list \<Rightarrow> string \<Rightarrow> string" where
  "trimLeftSeqs ws s =
     (case find (\<lambda>w. w \<noteq> [] \<and> hasPrefix s w) ws of
        None \<Rightarrow> s
      | Some w \<Rightarrow> trimLeftSeqs ws (drop (length w) s))"
  by pat_completeness auto
termination
proof (relation "measure (\<lambda>(ws, s). length s)")
  show "wf (measure (\<lambda>(ws, s). length s))" by simp
next
  fix ws :: "string list" and s w :: string
  assume "find (\<lambda>w. w \<noteq> [] \<and> hasPrefix s w) ws = Some w"
  then have "w \<noteq> []" and "hasPrefix s w" by (auto simp: find_Some_iff)
  then have "s \<noteq> []" by (auto simp: hasPrefix_def)
  with \<open>w \<noteq> []\<close> show "((ws, drop (length w) s), (ws, s)) \<in> measure (\<lambda>(ws, s). length s)"
    by simp
qed

definition trimSpace :: "string \<Rightarrow> string" where
  "trimSpace s = rev (trimLeftSeqs (map rev spaceSeqs) (rev (trimLeftSeqs spaceSeqs s)))"

text \<open>\<open>strings.Index\<close>: the position of the first occurrence, if there is one.\<close>

fun index :: "string \<Rightarrow> string \<Rightarrow> nat option" where
  "index [] sub = (if sub = [] then Some 0 else None)"
| "index (c # cs) sub =
     (if hasPrefix (c # cs) sub then Some 0 else map_option Suc (index cs sub))"

text \<open>
  The conversions at the end of \<open>extractTitleAndClean\<close> (the statements after the
  hidden blocks are removed), one \<open>ReplaceAllString\<close> per line.
\<close>

definition convertMarkup :: "string \<Rightarrow> string" where
  "convertMarkup s0 =
     (let s1 = replaceAllRe h1Re (Group1 ''# '' []) s0;
          s2 = replaceAllRe h2Re (Group1 ''## '' []) s1;
          s3 = replaceAllRe h3Re (Group1 ''### '' []) s2;
          s4 = replaceAllRe spanRe (Group1 [] []) s3;
          s5 = replaceAllRe brRe (Plain [CHR 0x0A]) s4;
          s6 = replaceAllRe kbdRe (Group1 ''`'' ''`'') s5;
          s7 = replaceAllRe supRe (Group1 [] []) s6;
          s8 = replaceAllRe strongRe (Group1 ''**'' ''**'') s7;
          s9 = replaceAllRe divRe (Plain []) s8
      in s9)"

text \<open>The front-matter statement at the start of \<open>extractTitleAndClean\<close>.\<close>

definition stripFrontMatter :: "string \<Rightarrow> string" where
  "stripFrontMatter s =
     (if hasPrefix s ''---''
      then (case index (drop 3 s) (CHR 0x0A # ''---'') of
              Some end \<Rightarrow> dropWhile (\<lambda>c. c = CHR 0x0A) (drop (3 + end + 4) s)
            | None \<Rightarrow> s)
      else s)"

text \<open>\<open>extractTitleAndClean\<close>: the result is (title, keywords, cleaned content).\<close>

definition extractTitleAndClean :: "string \<Rightarrow> string \<times> string \<times> string" where
  "extractTitleAndClean raw =
     (let s = stripFrontMatter raw;
          title =
            (case findSubmatchBol mdH1Re True s of
               Some m \<Rightarrow> trimSpace m
             | None \<Rightarrow>
                (case findSubmatch h1Re s of
                   Some m \<Rightarrow> replaceAllRe htmlTagRe (Plain []) (trimSpace m)
                 | None \<Rightarrow> []));
          kws = filter (\<lambda>kw. kw \<noteq> []) (map trimSpace (findAllRe hiddenDivRe s));
          keywords = join kws '' '';
          s' = replaceAllRe hiddenDivRe (Plain []) s
      in (title, keywords, convertMarkup s'))"

section \<open>Documents with hidden blocks\<close>

text \<open>
  \<open>alreadyClean\<close>: none of the nine patterns of the conversion steps matches anywhere
  in the text.

  A hidden block is a \<open>div\<close> element whose opening tag holds \<open>display:\<close>, white space
  and \<open>none\<close>. \<open>Block a1 w a2 k g\<close> stands for the block with the attribute text \<open>a1\<close>
  before \<open>display:\<close>, the white space \<open>w\<close>, the attribute text \<open>a2\<close> after \<open>none\<close> and
  the inner text \<open>k\<close>, followed in the document by the text \<open>g\<close>. \<open>document g bs\<close> is
  the document that starts with the text \<open>g\<close> and goes on with the blocks \<open>bs\<close>.
\<close>

definition alreadyClean :: "string \<Rightarrow> bool" where
  "alreadyClean s =
     list_all (\<lambda>re. findSubmatch re s = None)
       [h1Re, h2Re, h3Re, spanRe, brRe, kbdRe, supRe, strongRe, divRe]"

datatype block = Block (attrs1: string) (spaces: string) (attrs2: string) (inner: string) (following: string)

definition blockText :: "block \<Rightarrow> string" where
  "blockText b =
     ''<div'' @ attrs1 b @ ''display:'' @ spaces b @ ''none'' @ attrs2 b @ ''>''
       @ inner b @ ''</div>''"

fun document :: "string \<Rightarrow> block list \<Rightarrow> string" where
  "document g [] = g"
| "document g (b # bs) = g @ blockText b @ document (following b) bs"

text \<open>
  \<open>occurs sub s\<close>: the text \<open>sub\<close> occurs in \<open>s\<close>. A block is well formed when its
  attribute texts hold no \<open>>\<close>, its inner text holds no closing \<open>div\<close> tag, and no
  \<open>div\<close> element opens in the text that follows it.
\<close>

fun occurs :: "string \<Rightarrow> string \<Rightarrow> bool" where
  "occurs sub [] = (sub = [])"
| "occurs sub (c # cs) = (hasPrefix (c # cs) sub \<or> occurs sub cs)"

definition wellFormedBlock :: "block \<Rightarrow> bool" where
  "wellFormedBlock b =
     (CHR ''>'' \<notin> set (attrs1 b) \<and> CHR ''>'' \<notin> set (attrs2 b)
      \<and> list_all (inCls Space) (spaces b)
      \<and> \<not> occurs ''</div>'' (inner b) \<and> \<not> occurs ''<div'' (following b))"

text \<open>
  The text that follows a block, without the white space that the pattern's final
  \<open>\s*\<close> takes.
\<close>

definition followingTrimmed :: "block \<Rightarrow> string" where
  "followingTrimmed b = dropWhile (inCls Space) (following b)"


text \<open>
  Markup whose tags stay apart: no \<open><\<close> comes directly behind another \<open><\<close>, or behind
  \<open><d\<close> or \<open><di\<close>, so that taking tags out of the text cannot put the opening of a
  \<open>div\<close> tag together. \<open>scanOpen p s\<close> reads \<open>s\<close> from the left, having just read \<open>p\<close>
  (nothing of interest, \<open><\<close>, \<open><d\<close> or \<open><di\<close>), and answers what it has just read at the
  end, or \<open>None\<close> when a \<open><\<close> comes behind one of the three.
\<close>

definition tagsApart :: "string \<Rightarrow> bool" where
  "tagsApart s = (\<not> occurs ''<<'' s \<and> \<not> occurs ''<d<'' s \<and> \<not> occurs ''<di<'' s)"

fun scanOpen :: "string \<Rightarrow> string \<Rightarrow> string option" where
  "scanOpen p [] = Some p"
| "scanOpen p (c # cs) =
     (if c = CHR ''<'' then (if p = [] then scanOpen ''<'' cs else None)
      else if p = ''<'' \<and> c = CHR ''d'' then scanOpen ''<d'' cs
      else if p = ''<d'' \<and> c = CHR ''i'' then scanOpen ''<di'' cs
      else scanOpen [] cs)"

text \<open>
  What a pattern can consume, without regard to preference: \<open>itemWords i w c\<close> says that
  the item \<open>i\<close> can consume the text \<open>w\<close> and then adds \<open>c\<close> to the capture, and
  \<open>accepts re w c\<close> that the pattern \<open>re\<close> can consume \<open>w\<close> with the capture \<open>c\<close>. The end-of-line
  assertion consumes nothing.
\<close>

fun itemWords :: "item \<Rightarrow> string \<Rightarrow> string \<Rightarrow> bool" where
  "itemWords (Chr x) w c = (w = [x] \<and> c = [])"
| "itemWords (Opt x) w c = ((w = [] \<or> w = [x]) \<and> c = [])"
| "itemWords (One k g) w c = (length w = 1 \<and> list_all (inCls k) w \<and> c = (if g then w else []))"
| "itemWords (Star k g) w c = (list_all (inCls k) w \<and> c = (if g then w else []))"
| "itemWords (Lazy k g) w c = (list_all (inCls k) w \<and> c = (if g then w else []))"
| "itemWords Eol w c = (w = [] \<and> c = [])"

fun accepts :: "item list \<Rightarrow> string \<Rightarrow> string \<Rightarrow> bool" where
  "accepts [] w c = (w = [] \<and> c = [])"
| "accepts (i # r) w c =
     (\<exists>w1 w2 c1 c2. w = w1 @ w2 \<and> c = c1 @ c2 \<and> itemWords i w1 c1 \<and> accepts r w2 c2)"
section \<open>Catalog and association tables\<close>

text \<open>
  \<open>docEntry\<close> of main.go. The \<open>docs\<close> table has \<open>path\<close> as its primary key and
  every row is written with \<open>INSERT OR IGNORE\<close>: a row whose key is already present
  is not inserted. A table is the list of its rows in insertion order.
\<close>

record docEntry =
  path :: string
  "file" :: string
  title :: string
  "keywords" :: string
  content :: string
  exclude :: bool

definition insertOrIgnore :: "docEntry \<Rightarrow> docEntry list \<Rightarrow> docEntry list" where
  "insertOrIgnore d tbl = (if path d \<in> set (map path tbl) then tbl else tbl @ [d])"

text \<open>The loop \<open>for _, d := range docs { ins.Exec(...) }\<close> of \<open>main\<close>.\<close>

fun insertDocs :: "docEntry list \<Rightarrow> docEntry list \<Rightarrow> docEntry list" where
  "insertDocs [] tbl = tbl"
| "insertDocs (d # ds) tbl = insertDocs ds (insertOrIgnore d tbl)"

text \<open>The loop of \<open>main\<close> that builds \<open>fileIndex\<close>: a later entry overwrites an earlier key.\<close>

fun buildIndex :: "docEntry list \<Rightarrow> (string \<rightharpoonup> string) \<Rightarrow> (string \<rightharpoonup> string)" where
  "buildIndex [] fileIndex = fileIndex"
| "buildIndex (d # ds) fileIndex = buildIndex ds (fileIndex(normalizeFilePath (file d) \<mapsto> path d))"

section \<open>File paths\<close>

text \<open>
  Package \<open>path/filepath\<close> on a system whose separator is \<open>/\<close>. \<open>Clean\<close> works on the
  elements between separators: empty elements and \<open>.\<close> are dropped, \<open>..\<close> removes the
  element before it (at the root it is dropped, at the start of a relative path it is
  kept); the empty result is \<open>.\<close>, or \<open>/\<close> for a rooted path.
\<close>

definition rooted :: "string \<Rightarrow> bool" where
  "rooted p = hasPrefix p ''/''"

fun cleanStep :: "bool \<Rightarrow> string list \<Rightarrow> string \<Rightarrow> string list" where
  "cleanStep r acc e =
     (if e = [] \<or> e = ''.'' then acc
      else if e = ''..'' then
        (if acc \<noteq> [] \<and> last acc \<noteq> ''..'' then butlast acc
         else if r then acc else acc @ [e])
      else acc @ [e])"

definition clean :: "string \<Rightarrow> string" where
  "clean p =
     (let acc = foldl (cleanStep (rooted p)) [] (split p CHR ''/'')
      in if rooted p then ''/'' @ join acc ''/''
         else if acc = [] then ''.'' else join acc ''/'')"

text \<open>\<open>filepath.Join\<close>: leading empty elements are ignored, the rest is joined and cleaned.\<close>

definition joinPath :: "string list \<Rightarrow> string" where
  "joinPath elem =
     (case dropWhile (\<lambda>e. e = []) elem of
        [] \<Rightarrow> []
      | es \<Rightarrow> clean (join es ''/''))"

text \<open>\<open>filepath.Dir\<close>: the path up to its last separator, cleaned.\<close>

definition dirPath :: "string \<Rightarrow> string" where
  "dirPath p = clean (rev (dropWhile (\<lambda>c. c \<noteq> CHR ''/'') (rev p)))"

text \<open>
  \<open>filepath.Rel\<close>: both paths are cleaned and compared element by element; what is left
  of the base is climbed with \<open>..\<close>, what is left of the target is appended. It fails
  when only one of the two is rooted, or when the first differing element of the base
  is \<open>..\<close>. The program discards the error and uses the empty string.
\<close>

fun stripCommon :: "string list \<Rightarrow> string list \<Rightarrow> string list \<times> string list" where
  "stripCommon (b # bs) (t # ts) = (if b = t then stripCommon bs ts else (b # bs, t # ts))"
| "stripCommon bs ts = (bs, ts)"

definition pathElems :: "string \<Rightarrow> string list" where
  "pathElems p = filter (\<lambda>e. e \<noteq> []) (split p CHR ''/'')"

definition rel :: "string \<Rightarrow> string \<Rightarrow> string option" where
  "rel basepath targpath =
     (let base = clean basepath; targ = clean targpath
      in if targ = base then Some ''.''
         else if rooted base \<noteq> rooted targ then None
         else
           (case stripCommon (if base = ''.'' then [] else pathElems base) (pathElems targ) of
              (bs, ts) \<Rightarrow>
                if bs \<noteq> [] \<and> ts \<noteq> [] \<and> hd bs = ''..'' then None
                else Some (join (replicate (length bs) ''..'' @ ts) ''/'')))"

definition relOrEmpty :: "string \<Rightarrow> string \<Rightarrow> string" where
  "relOrEmpty basepath targpath = (case rel basepath targpath of Some r \<Rightarrow> r | None \<Rightarrow> [])"

section \<open>Navigation configuration\<close>

text \<open>
  \<open>yaml.Node\<close> with the three fields the walker reads, and \<open>mkdocsConfig\<close>. The world
  outside the program is the record \<open>env\<close>: \<open>readFile\<close> is \<open>os.ReadFile\<close> (no value
  for a file that cannot be read), \<open>unmarshal\<close> is \<open>yaml.Unmarshal\<close> into a
  \<open>mkdocsConfig\<close> (no value for a text that does not parse), and \<open>growCap\<close> is the
  capacity the Go runtime picks when \<open>append\<close> has to move a slice of the given
  capacity to a new array.
\<close>

datatype kind = DocumentNode | SequenceNode | MappingNode | ScalarNode | AliasNode

datatype node = Node (Kind: kind) (Value: string) (Content: "node list")

record mkdocsConfig =
  SiteName :: string
  DocsDir :: string
  Nav :: "node list"

record env =
  readFile :: "string \<Rightarrow> string option"
  unmarshal :: "string \<Rightarrow> mkdocsConfig option"
  growCap :: "nat \<Rightarrow> nat"

datatype error = ReadError | ParseError

definition parseMkdocs :: "env \<Rightarrow> string \<Rightarrow> error + mkdocsConfig" where
  "parseMkdocs E p =
     (case readFile E p of
        None \<Rightarrow> Inl ReadError
      | Some data \<Rightarrow>
         (case unmarshal E data of
            None \<Rightarrow> Inl ParseError
          | Some cfg \<Rightarrow> Inr cfg))"

section \<open>Breadcrumb slices\<close>

text \<open>
  A Go slice of strings is a pointer to a backing array, a length and a capacity. The
  state of a run holds the backing arrays (\<open>heap\<close>, with \<open>nextArr\<close> the next unused
  address), the entries collected so far (\<open>out\<close>) and the warnings logged so far.
  \<open>append b x\<close> writes \<open>x\<close> into the array of \<open>b\<close> when the capacity allows it and
  moves the elements to a new array otherwise; in both cases the slice \<open>b\<close> itself is
  unchanged, and in the first case the result shares the array of \<open>b\<close>.
\<close>

record slice =
  sptr :: nat
  slen :: nat
  scap :: nat

datatype warning = DocWarning string error | IncludeWarning string error

record state =
  out :: "docEntry list"
  logged :: "warning list"
  heap :: "nat \<Rightarrow> string list"
  nextArr :: nat

definition nilSlice :: slice where
  "nilSlice = \<lparr>sptr = 0, slen = 0, scap = 0\<rparr>"

definition initState :: state where
  "initState = \<lparr>out = [], logged = [], heap = (\<lambda>a. []), nextArr = 1\<rparr>"

definition elems :: "state \<Rightarrow> slice \<Rightarrow> string list" where
  "elems st b = take (slen b) (heap st (sptr b))"

definition appendStr :: "env \<Rightarrow> slice \<Rightarrow> string \<Rightarrow> state \<Rightarrow> slice \<times> state" where
  "appendStr E b x st =
     (if slen b < scap b
      then (b\<lparr>slen := slen b + 1\<rparr>,
            st\<lparr>heap := (heap st)(sptr b := (heap st (sptr b))[slen b := x])\<rparr>)
      else
        (let c = max (slen b + 1) (growCap E (scap b));
             a = nextArr st
         in (\<lparr>sptr = a, slen = slen b + 1, scap = c\<rparr>,
             st\<lparr>heap := (heap st)(a := elems st b @ [x] @ replicate (c - (slen b + 1)) []),
                nextArr := a + 1\<rparr>)))"

section \<open>Navigation Tree Walker\<close>

text \<open>\<open>addDoc\<close> of main.go; the breadcrumb is read through its slice.\<close>

definition addDoc :: "env \<Rightarrow> string \<Rightarrow> string \<Rightarrow> string \<Rightarrow> slice \<Rightarrow> state \<Rightarrow> state" where
  "addDoc E mdPath docsDir repoRoot breadcrumb st =
     (if \<not> hasSuffix mdPath ''.md'' then st
      else
        (let absPath = joinPath [docsDir, mdPath]
         in case readFile E absPath of
              None \<Rightarrow> st\<lparr>logged := logged st @ [DocWarning mdPath ReadError]\<rparr>
            | Some raw \<Rightarrow>
               (case extractTitleAndClean raw of
                  (title0, keywords0, content0) \<Rightarrow>
                    (let relFile = relOrEmpty repoRoot absPath;
                         navPath0 = join (elems st breadcrumb) '' / '';
                         navPath = (if navPath0 = [] then mdPath else navPath0);
                         title1 = (if title0 = [] \<and> slen breadcrumb > 0
                                   then heap st (sptr breadcrumb) ! (slen breadcrumb - 1)
                                   else title0)
                     in st\<lparr>out := out st @
                          [\<lparr>path = navPath, file = relFile, title = title1,
                            keywords = keywords0, content = content0, exclude = False\<rparr>]\<rparr>))))"

text \<open>
  \<open>walkNav\<close>, \<open>walkNavNode\<close> and \<open>handleInclude\<close>. \<open>walkPairs\<close> is the loop of
  \<open>walkNavNode\<close> over the key and value nodes of a mapping; the two loops of
  \<open>walkNavNode\<close> over the children of a sequence are the loop of \<open>walkNav\<close>. An
  included configuration can include its includer, in which case the program recurses
  without end: \<open>fuel\<close> bounds the nesting of inclusions that are entered, and the
  result is \<open>None\<close> when the bound is reached.
\<close>

function walkNavNode :: "env \<Rightarrow> nat \<Rightarrow> node \<Rightarrow> string \<Rightarrow> string \<Rightarrow> slice \<Rightarrow> state \<Rightarrow> state option"
  and walkNav :: "env \<Rightarrow> nat \<Rightarrow> node list \<Rightarrow> string \<Rightarrow> string \<Rightarrow> slice \<Rightarrow> state \<Rightarrow> state option"
  and walkPairs :: "env \<Rightarrow> nat \<Rightarrow> node list \<Rightarrow> string \<Rightarrow> string \<Rightarrow> slice \<Rightarrow> state \<Rightarrow> state option"
  and handleInclude :: "env \<Rightarrow> nat \<Rightarrow> string \<Rightarrow> string \<Rightarrow> string \<Rightarrow> slice \<Rightarrow> state \<Rightarrow> state option"
where
  "walkNavNode E fuel (Node k v c) docsDir repoRoot breadcrumb st =
     (case k of
        ScalarNode \<Rightarrow> Some (addDoc E v docsDir repoRoot breadcrumb st)
      | MappingNode \<Rightarrow> walkPairs E fuel c docsDir repoRoot breadcrumb st
      | SequenceNode \<Rightarrow> walkNav E fuel c docsDir repoRoot breadcrumb st
      | _ \<Rightarrow> Some st)"
| "walkNav E fuel [] docsDir repoRoot breadcrumb st = Some st"
| "walkNav E fuel (n # ns) docsDir repoRoot breadcrumb st =
     (case walkNavNode E fuel n docsDir repoRoot breadcrumb st of
        None \<Rightarrow> None
      | Some st1 \<Rightarrow> walkNav E fuel ns docsDir repoRoot breadcrumb st1)"
| "walkPairs E fuel [] docsDir repoRoot breadcrumb st = Some st"
| "walkPairs E fuel [key] docsDir repoRoot breadcrumb st = Some st"
| "walkPairs E fuel (key # Node vk vv vc # rest) docsDir repoRoot breadcrumb st =
     (case
        (case vk of
           ScalarNode \<Rightarrow>
             if hasPrefix vv ''!include ''
             then handleInclude E fuel vv (Value key) repoRoot breadcrumb st
             else (case appendStr E breadcrumb (Value key) st of
                     (path1, st1) \<Rightarrow> Some (addDoc E vv docsDir repoRoot path1 st1))
         | SequenceNode \<Rightarrow>
             (case appendStr E breadcrumb (Value key) st of
                (path1, st1) \<Rightarrow> walkNav E fuel vc docsDir repoRoot path1 st1)
         | MappingNode \<Rightarrow>
             (case appendStr E breadcrumb (Value key) st of
                (path1, st1) \<Rightarrow> walkNavNode E fuel (Node vk vv vc) docsDir repoRoot path1 st1)
         | _ \<Rightarrow> Some st)
      of
        None \<Rightarrow> None
      | Some st2 \<Rightarrow> walkPairs E fuel rest docsDir repoRoot breadcrumb st2)"
| "handleInclude E fuel v parentTitle repoRoot breadcrumb st =
     (let relPath = trimSpace (trimPrefix v ''!include '');
          absPath = joinPath [repoRoot, relPath]
      in case parseMkdocs E absPath of
           Inl err \<Rightarrow> Some (st\<lparr>logged := logged st @ [IncludeWarning relPath err]\<rparr>)
         | Inr cfg \<Rightarrow>
            (let subsiteDir = dirPath absPath;
                 docsDir = (if DocsDir cfg = [] then ''docs'' else DocsDir cfg);
                 absDocsDir = joinPath [subsiteDir, docsDir]
             in case appendStr E breadcrumb parentTitle st of
                  (path1, st1) \<Rightarrow>
                    (case fuel of
                       0 \<Rightarrow> None
                     | Suc fuel' \<Rightarrow> walkNav E fuel' (Nav cfg) absDocsDir repoRoot path1 st1)))"
  by pat_completeness auto
termination
  by (relation "inv_image (less_than <*lex*> less_than)
        (\<lambda>x. case x of
           Inl (Inl (E, fuel, n, r)) \<Rightarrow> (fuel, 2 * size n + 1)
         | Inl (Inr (E, fuel, ns, r)) \<Rightarrow> (fuel, 2 * size_list size ns + 1)
         | Inr (Inl (E, fuel, ns, r)) \<Rightarrow> (fuel, 2 * size_list size ns + 1)
         | Inr (Inr (E, fuel, r)) \<Rightarrow> (fuel, 0))")
     auto

section \<open>The walker with copied breadcrumbs\<close>

text \<open>
  The walker as the specification describes it: the breadcrumb is an immutable list of
  titles, and extending it for a child builds a new list (\<open>breadcrumb @ [title]\<close>), so
  no branch can see another's extension. Everything else is as in the walker above.
  The result is what a run collects: the entries and the warnings.
\<close>

record collected =
  entries :: "docEntry list"
  warnings :: "warning list"

definition collectedOf :: "state \<Rightarrow> collected" where
  "collectedOf st = \<lparr>entries = out st, warnings = logged st\<rparr>"

definition addDoc_pure :: "env \<Rightarrow> string \<Rightarrow> string \<Rightarrow> string \<Rightarrow> string list \<Rightarrow> collected \<Rightarrow> collected" where
  "addDoc_pure E mdPath docsDir repoRoot breadcrumb c =
     (if \<not> hasSuffix mdPath ''.md'' then c
      else
        (let absPath = joinPath [docsDir, mdPath]
         in case readFile E absPath of
              None \<Rightarrow> c\<lparr>warnings := warnings c @ [DocWarning mdPath ReadError]\<rparr>
            | Some raw \<Rightarrow>
               (case extractTitleAndClean raw of
                  (title0, keywords0, content0) \<Rightarrow>
                    (let relFile = relOrEmpty repoRoot absPath;
                         navPath0 = join breadcrumb '' / '';
                         navPath = (if navPath0 = [] then mdPath else navPath0);
                         title1 = (if title0 = [] \<and> length breadcrumb > 0
                                   then last breadcrumb
                                   else title0)
                     in c\<lparr>entries := entries c @
                          [\<lparr>path = navPath, file = relFile, title = title1,
                            keywords = keywords0, content = content0, exclude = False\<rparr>]\<rparr>))))"

function walkNavNode_pure :: "env \<Rightarrow> nat \<Rightarrow> node \<Rightarrow> string \<Rightarrow> string \<Rightarrow> string list \<Rightarrow> collected \<Rightarrow> collected option"
  and walkNav_pure :: "env \<Rightarrow> nat \<Rightarrow> node list \<Rightarrow> string \<Rightarrow> string \<Rightarrow> string list \<Rightarrow> collected \<Rightarrow> collected option"
  and walkPairs_pure :: "env \<Rightarrow> nat \<Rightarrow> node list \<Rightarrow> string \<Rightarrow> string \<Rightarrow> string list \<Rightarrow> collected \<Rightarrow> collected option"
  and handleInclude_pure :: "env \<Rightarrow> nat \<Rightarrow> string \<Rightarrow> string \<Rightarrow> string \<Rightarrow> string list \<Rightarrow> collected \<Rightarrow> collected option"
where
  "walkNavNode_pure E fuel (Node k v c) docsDir repoRoot breadcrumb st =
     (case k of
        ScalarNode \<Rightarrow> Some (addDoc_pure E v docsDir repoRoot breadcrumb st)
      | MappingNode \<Rightarrow> walkPairs_pure E fuel c docsDir repoRoot breadcrumb st
      | SequenceNode \<Rightarrow> walkNav_pure E fuel c docsDir repoRoot breadcrumb st
      | _ \<Rightarrow> Some st)"
| "walkNav_pure E fuel [] docsDir repoRoot breadcrumb st = Some st"
| "walkNav_pure E fuel (n # ns) docsDir repoRoot breadcrumb st =
     (case walkNavNode_pure E fuel n docsDir repoRoot breadcrumb st of
        None \<Rightarrow> None
      | Some st1 \<Rightarrow> walkNav_pure E fuel ns docsDir repoRoot breadcrumb st1)"
| "walkPairs_pure E fuel [] docsDir repoRoot breadcrumb st = Some st"
| "walkPairs_pure E fuel [key] docsDir repoRoot breadcrumb st = Some st"
| "walkPairs_pure E fuel (key # Node vk vv vc # rest) docsDir repoRoot breadcrumb st =
     (case
        (case vk of
           ScalarNode \<Rightarrow>
             if hasPrefix vv ''!include ''
             then handleInclude_pure E fuel vv (Value key) repoRoot breadcrumb st
             else Some (addDoc_pure E vv docsDir repoRoot (breadcrumb @ [Value key]) st)
         | SequenceNode \<Rightarrow> walkNav_pure E fuel vc docsDir repoRoot (breadcrumb @ [Value key]) st
         | MappingNode \<Rightarrow>
             walkNavNode_pure E fuel (Node vk vv vc) docsDir repoRoot (breadcrumb @ [Value key]) st
         | _ \<Rightarrow> Some st)
      of
        None \<Rightarrow> None
      | Some st2 \<Rightarrow> walkPairs_pure E fuel rest docsDir repoRoot breadcrumb st2)"
| "handleInclude_pure E fuel v parentTitle repoRoot breadcrumb st =
     (let relPath = trimSpace (trimPrefix v ''!include '');
          absPath = joinPath [repoRoot, relPath]
      in case parseMkdocs E absPath of
           Inl err \<Rightarrow> Some (st\<lparr>warnings := warnings st @ [IncludeWarning relPath err]\<rparr>)
         | Inr cfg \<Rightarrow>
            (let subsiteDir = dirPath absPath;
                 docsDir = (if DocsDir cfg = [] then ''docs'' else DocsDir cfg);
                 absDocsDir = joinPath [subsiteDir, docsDir]
             in case fuel of
                  0 \<Rightarrow> None
                | Suc fuel' \<Rightarrow>
                    walkNav_pure E fuel' (Nav cfg) absDocsDir repoRoot (breadcrumb @ [parentTitle]) st))"
  by pat_completeness auto
termination
  by (relation "inv_image (less_than <*lex*> less_than)
        (\<lambda>x. case x of
           Inl (Inl (E, fuel, n, r)) \<Rightarrow> (fuel, 2 * size n + 1)
         | Inl (Inr (E, fuel, ns, r)) \<Rightarrow> (fuel, 2 * size_list size ns + 1)
         | Inr (Inl (E, fuel, ns, r)) \<Rightarrow> (fuel, 2 * size_list size ns + 1)
         | Inr (Inr (E, fuel, r)) \<Rightarrow> (fuel, 0))")
     auto

section \<open>Slices during a walk\<close>

text \<open>
  A slice is well formed in a state when its array has been allocated and is at least
  as long as the capacity. \<open>frame st b st'\<close> says what a walk that was given the
  breadcrumb \<open>b\<close> in \<open>st\<close> and ended in \<open>st'\<close> may have done to the arrays: nothing to
  the first \<open>slen b\<close> cells of the array of \<open>b\<close>, and nothing to any other array that
  existed before. \<open>sim\<close> relates a result of the walker to a result of the walker with
  copied breadcrumbs: both run out of fuel, or both return, with the same entries and
  warnings.
\<close>

definition wfSlice :: "state \<Rightarrow> slice \<Rightarrow> bool" where
  "wfSlice st b = (sptr b < nextArr st \<and> slen b \<le> scap b \<and> scap b \<le> length (heap st (sptr b)))"

definition frame :: "state \<Rightarrow> slice \<Rightarrow> state \<Rightarrow> bool" where
  "frame st b st' =
     (nextArr st \<le> nextArr st'
      \<and> length (heap st' (sptr b)) = length (heap st (sptr b))
      \<and> take (slen b) (heap st' (sptr b)) = take (slen b) (heap st (sptr b))
      \<and> (\<forall>a. a < nextArr st \<and> a \<noteq> sptr b \<longrightarrow> heap st' a = heap st a))"

definition sim :: "state \<Rightarrow> slice \<Rightarrow> state option \<Rightarrow> collected option \<Rightarrow> bool" where
  "sim st b r rp =
     (case r of None \<Rightarrow> rp = None
      | Some st' \<Rightarrow> rp = Some (collectedOf st') \<and> frame st b st')"

text \<open>
  An example run: the section \<open>Top / S / X\<close> has the two sub-sections \<open>A\<close> and \<open>B\<close>,
  each with one leaf. The capacities double, as in the Go runtime for small slices, so
  the breadcrumb \<open>Top, S, X\<close> has one spare cell, and the titles \<open>A\<close> and \<open>B\<close> are both
  written into that cell.
\<close>

definition scalar :: "string \<Rightarrow> node" where
  "scalar v = Node ScalarNode v []"

definition titled :: "string \<Rightarrow> node \<Rightarrow> node" where
  "titled t v = Node MappingNode [] [scalar t, v]"

definition seqNode :: "node list \<Rightarrow> node" where
  "seqNode ns = Node SequenceNode [] ns"

definition siblingsNav :: "node list" where
  "siblingsNav =
     [titled ''Top'' (seqNode [titled ''S'' (seqNode [titled ''X'' (seqNode
        [titled ''A'' (seqNode [scalar ''a.md'']),
         titled ''B'' (seqNode [scalar ''b.md''])])])])]"

definition siblingsEnv :: env where
  "siblingsEnv =
     \<lparr>readFile = (\<lambda>p. if p = ''/r/docs/a.md'' then Some ''# Alpha''
                       else if p = ''/r/docs/b.md'' then Some ''text'' else None),
      unmarshal = (\<lambda>d. None),
      growCap = (\<lambda>c. if c = 0 then 1 else 2 * c)\<rparr>"

section \<open>Symbol Matcher\<close>

text \<open>
  The third tier of \<open>matchHelpURL\<close> ranges over the Go map \<open>fileIndex\<close>. Go leaves the
  iteration order of a map unspecified, so the order in which one \<open>range\<close> statement
  yields the keys is an argument \<open>ks\<close> of the model: some enumeration of the keys
  (an element of \<open>ks\<close> that is not a key of the map is passed over). \<open>qualifies\<close> is
  the condition of the loop body.
\<close>

definition qualifies :: "string \<Rightarrow> string \<Rightarrow> bool" where
  "qualifies url filePath = (hasSuffix filePath (''/'' @ url) \<or> filePath = url)"

fun rangeScan :: "string list \<Rightarrow> string \<Rightarrow> (string \<rightharpoonup> string) \<Rightarrow> string option" where
  "rangeScan [] url fileIndex = None"
| "rangeScan (filePath # ks) url fileIndex =
     (case fileIndex filePath of
        None \<Rightarrow> rangeScan ks url fileIndex
      | Some navPath \<Rightarrow>
          if qualifies url filePath then Some navPath
          else rangeScan ks url fileIndex)"

definition matchHelpURL :: "string list \<Rightarrow> string \<Rightarrow> (string \<rightharpoonup> string) \<Rightarrow> string option" where
  "matchHelpURL ks url fileIndex =
     (case fileIndex url of
        Some navPath \<Rightarrow> Some navPath
      | None \<Rightarrow>
         (case fileIndex (url @ ''/index'') of
            Some navPath \<Rightarrow> Some navPath
          | None \<Rightarrow> rangeScan ks url fileIndex))"

section \<open>Disambiguation recovery\<close>

text \<open>
  \<open>strings.ToUpper\<close> of the one-byte string \<open>w[:1]\<close>: an ASCII lower-case letter is
  capitalized, another ASCII byte is kept, and a byte from \<open>0x80\<close> on (which alone is
  not valid UTF-8) becomes the encoding of U+FFFD.
\<close>

definition toUpper1 :: "char \<Rightarrow> string" where
  "toUpper1 c =
     (let n = (of_char c :: nat)
      in if 97 \<le> n \<and> n \<le> 122 then [char_of (n - 32)]
         else if n < 128 then [c]
         else [CHR 0xEF, CHR 0xBF, CHR 0xBD])"

text \<open>\<open>buildNavPath\<close> of main.go.\<close>

definition titleWord :: "string \<Rightarrow> string" where
  "titleWord w = (case w of [] \<Rightarrow> [] | c # cs \<Rightarrow> toUpper1 c @ cs)"

definition buildNavPath :: "string \<Rightarrow> string" where
  "buildNavPath url =
     join (map (\<lambda>p. join (map titleWord (split p CHR ''-'')) '' '') (split url CHR ''/'')) '' / ''"

text \<open>
  \<open>findHelpFile\<close> of main.go. The result is the five strings it returns (navPath,
  relFilePath, title, keywords, content) when \<open>ok\<close> is true, together with the list of
  the files it tried to read, in order.
\<close>

fun tryCandidates :: "env \<Rightarrow> string \<Rightarrow> string \<Rightarrow> string list
    \<Rightarrow> (string \<times> string \<times> string \<times> string \<times> string) option \<times> string list" where
  "tryCandidates E url repoRoot [] = (None, [])"
| "tryCandidates E url repoRoot (candidate # cs) =
     (case readFile E candidate of
        None \<Rightarrow> (case tryCandidates E url repoRoot cs of (r, tried) \<Rightarrow> (r, candidate # tried))
      | Some raw \<Rightarrow>
         (let relFile = relOrEmpty repoRoot candidate;
              navPath = buildNavPath url
          in case extractTitleAndClean raw of
               (title0, keywords0, content0) \<Rightarrow>
                 (let title1 = (if title0 = [] then last (split url CHR ''/'') else title0)
                  in (Some (navPath, relFile, title1, keywords0, content0), [candidate]))))"

definition findHelpFile :: "env \<Rightarrow> string \<Rightarrow> string
    \<Rightarrow> (string \<times> string \<times> string \<times> string \<times> string) option \<times> string list" where
  "findHelpFile E url repoRoot =
     (case splitN2 url CHR ''/'' of
        [subsite, rest] \<Rightarrow>
          tryCandidates E url repoRoot
            [joinPath [repoRoot, subsite, ''docs'', rest @ ''.md''],
             joinPath [repoRoot, subsite, ''docs'', rest, ''index.md'']]
      | _ \<Rightarrow> (None, []))"

section \<open>Symbol entries and the two passes\<close>

text \<open>
  \<open>helpURLEntry\<close>, and the \<open>help_urls\<close> table (primary key \<open>symbol\<close>, again written
  with \<open>INSERT OR IGNORE\<close>) as the list of its (symbol, path) rows.
\<close>

record helpURLEntry =
  symbol :: string
  url :: string

definition insertHelpURL :: "string \<Rightarrow> string \<Rightarrow> (string \<times> string) list \<Rightarrow> (string \<times> string) list" where
  "insertHelpURL s p tbl = (if s \<in> set (map fst tbl) then tbl else tbl @ [(s, p)])"

text \<open>
  The second pass of \<open>main\<close>: one \<open>matchHelpURL\<close> call per entry, the \<open>i\<close>-th call
  ranging over the map in the order \<open>ord i\<close>; a match is written to \<open>help_urls\<close>.
\<close>

fun matchingPass :: "(nat \<Rightarrow> string list) \<Rightarrow> nat \<Rightarrow> helpURLEntry list \<Rightarrow> (string \<rightharpoonup> string)
    \<Rightarrow> (string \<times> string) list \<Rightarrow> (string \<times> string) list" where
  "matchingPass ord i [] fileIndex tbl = tbl"
| "matchingPass ord i (e # es) fileIndex tbl =
     (case matchHelpURL (ord i) (url e) fileIndex of
        Some navPath \<Rightarrow> matchingPass ord (Suc i) es fileIndex (insertHelpURL (symbol e) navPath tbl)
      | None \<Rightarrow> matchingPass ord (Suc i) es fileIndex tbl)"

text \<open>
  The first pass of \<open>main\<close> over the symbol entries: the body of the loop for one entry
  (\<open>ks\<close> is the order in which its \<open>matchHelpURL\<close> call ranges over the map), and the
  loop. The state is the \<open>docs\<close> table, \<open>fileIndex\<close> and the counter \<open>added\<close>.
\<close>

definition recoverOne :: "env \<Rightarrow> string list \<Rightarrow> string \<Rightarrow> helpURLEntry
    \<Rightarrow> docEntry list \<times> (string \<rightharpoonup> string) \<times> nat \<Rightarrow> docEntry list \<times> (string \<rightharpoonup> string) \<times> nat" where
  "recoverOne E ks tmpDir e s =
     (case s of (tbl, fileIndex, added) \<Rightarrow>
        (case matchHelpURL ks (url e) fileIndex of
           Some navPath \<Rightarrow> s
         | None \<Rightarrow>
            (case fst (findHelpFile E (url e) tmpDir) of
               None \<Rightarrow> s
             | Some (navPath, filePath, title0, keywords0, content0) \<Rightarrow>
                 (insertOrIgnore
                    \<lparr>path = navPath, file = filePath, title = title0,
                      keywords = keywords0, content = content0, exclude = True\<rparr> tbl,
                  fileIndex(normalizeFilePath filePath \<mapsto> navPath),
                  added + 1))))"

fun recoveryPass :: "env \<Rightarrow> (nat \<Rightarrow> string list) \<Rightarrow> nat \<Rightarrow> string \<Rightarrow> helpURLEntry list
    \<Rightarrow> docEntry list \<times> (string \<rightharpoonup> string) \<times> nat \<Rightarrow> docEntry list \<times> (string \<rightharpoonup> string) \<times> nat" where
  "recoveryPass E ord i tmpDir [] s = s"
| "recoveryPass E ord i tmpDir (e # es) s =
     recoveryPass E ord (Suc i) tmpDir es (recoverOne E (ord i) tmpDir e s)"


text \<open>
  Reference paths and repository roots without surprises for \<open>filepath.Join\<close>,
  \<open>filepath.Rel\<close> and \<open>normalizeFilePath\<close>: every segment of a plain reference path is
  non-empty, is neither \<open>.\<close> nor \<open>..\<close> nor \<open>docs\<close>, and the last one is not \<open>index\<close>;
  a plain root is an absolute path of at least one segment, written without empty,
  \<open>.\<close> or \<open>..\<close> segments (as \<open>os.MkdirTemp\<close> returns it).
\<close>

definition plainElem :: "string \<Rightarrow> bool" where
  "plainElem e = (e \<noteq> [] \<and> e \<noteq> ''.'' \<and> e \<noteq> ''..'' \<and> CHR ''/'' \<notin> set e)"

definition plainURL :: "string \<Rightarrow> bool" where
  "plainURL u =
     (let xs = split u CHR ''/''
      in list_all plainElem xs \<and> ''docs'' \<notin> set xs \<and> last xs \<noteq> ''index'')"

section \<open>The run\<close>

text \<open>
  The part of \<open>main\<close> that collects the documents: the top-level configuration is
  parsed, and a failure there ends the program (\<open>log.Fatalf\<close>) before anything is
  written. The result is \<open>None\<close> when the walk runs out of fuel, the fatal error, or the
  state after the walk.
\<close>

definition collectDocs :: "env \<Rightarrow> nat \<Rightarrow> string \<Rightarrow> (error + state) option" where
  "collectDocs E fuel tmpDir =
     (case parseMkdocs E (joinPath [tmpDir, ''mkdocs.yml'']) of
        Inl err \<Rightarrow> Some (Inl err)
      | Inr cfg \<Rightarrow>
         (let docsDir = (if DocsDir cfg = [] then ''docs'' else DocsDir cfg)
          in map_option Inr
               (walkNav E fuel (Nav cfg) (joinPath [tmpDir, docsDir]) tmpDir nilSlice initState)))"

text \<open>
  The tables that the rest of \<open>main\<close> computes: the \<open>docs\<close> table and \<open>fileIndex\<close>
  are built from the collected entries; when the symbol list was read (\<open>helpEntries\<close>
  is its content, \<open>None\<close> when the flag is empty or \<open>parseSymbolURLs\<close> failed) the
  recovery pass and the matching pass follow. \<open>ord1\<close> and \<open>ord2\<close> give the map
  iteration orders of the two passes. The result is the \<open>docs\<close> table and the
  \<open>help_urls\<close> table of a run in which every database step succeeds.
\<close>

definition writeTables :: "env \<Rightarrow> (nat \<Rightarrow> string list) \<Rightarrow> (nat \<Rightarrow> string list) \<Rightarrow> string
    \<Rightarrow> helpURLEntry list option \<Rightarrow> docEntry list \<Rightarrow> docEntry list \<times> (string \<times> string) list" where
  "writeTables E ord1 ord2 tmpDir helpEntries docs =
     (let tbl = insertDocs docs [];
          fileIndex = buildIndex docs Map.empty
      in case helpEntries of
           None \<Rightarrow> (tbl, [])
         | Some es \<Rightarrow>
            (case recoveryPass E ord1 0 tmpDir es (tbl, fileIndex, 0) of
               (tbl', fileIndex', added) \<Rightarrow> (tbl', matchingPass ord2 0 es fileIndex' [])))"

text \<open>
  Every other way \<open>main\<close> can end early is a \<open>log.Fatal\<close> after a step of the process
  or of the database has failed: creating the temporary directory, cloning the
  repository, opening the database, creating the schema, and \<open>Begin\<close>, \<open>Prepare\<close> and
  \<open>Commit\<close> of each of the three transactions (the catalog rows, the recovered rows,
  the associations). Which of these steps fail is the argument \<open>faults\<close>. An error of a
  single \<open>Exec\<close> inside a transaction is logged or ignored by the program and not
  otherwise modelled: with \<open>INSERT OR IGNORE\<close> a key that is already present is not an
  error.
\<close>

datatype step = MkdirTemp | GitClone | OpenDatabase | CreateSchema
  | BeginDocs | PrepareDocs | CommitDocs
  | BeginRecovery | PrepareRecovery | CommitRecovery
  | BeginHelp | PrepareHelp | CommitHelp

datatype fatal = StepFailed step | RootConfig error

text \<open>
  How a run ends: \<open>Completed\<close> with the two tables, or \<open>Aborted\<close> with the cause and
  the rows of the two tables that had been committed when the program exited (the
  rows of an open transaction are lost).
\<close>

datatype outcome =
    Aborted fatal "docEntry list" "(string \<times> string) list"
  | Completed "docEntry list" "(string \<times> string) list"

text \<open>The part of \<open>main\<close> from \<open>sql.Open\<close> to the end, statement by statement.\<close>

definition writeDatabase :: "env \<Rightarrow> (step \<Rightarrow> bool) \<Rightarrow> (nat \<Rightarrow> string list) \<Rightarrow> (nat \<Rightarrow> string list) \<Rightarrow> string
    \<Rightarrow> helpURLEntry list option \<Rightarrow> docEntry list \<Rightarrow> outcome" where
  "writeDatabase E faults ord1 ord2 tmpDir helpEntries docs =
     (if faults OpenDatabase then Aborted (StepFailed OpenDatabase) [] []
      else if faults CreateSchema then Aborted (StepFailed CreateSchema) [] []
      else if faults BeginDocs then Aborted (StepFailed BeginDocs) [] []
      else if faults PrepareDocs then Aborted (StepFailed PrepareDocs) [] []
      else
       (let tbl = insertDocs docs []
        in if faults CommitDocs then Aborted (StepFailed CommitDocs) [] []
           else
            (let fileIndex = buildIndex docs Map.empty
             in case helpEntries of
                  None \<Rightarrow> Completed tbl []
                | Some es \<Rightarrow>
                   (if faults BeginRecovery then Aborted (StepFailed BeginRecovery) tbl []
                    else if faults PrepareRecovery then Aborted (StepFailed PrepareRecovery) tbl []
                    else
                     (case recoveryPass E ord1 0 tmpDir es (tbl, fileIndex, 0) of
                        (tbl', fileIndex', added) \<Rightarrow>
                          if faults CommitRecovery then Aborted (StepFailed CommitRecovery) tbl []
                          else if faults BeginHelp then Aborted (StepFailed BeginHelp) tbl' []
                          else if faults PrepareHelp then Aborted (StepFailed PrepareHelp) tbl' []
                          else
                           (let help = matchingPass ord2 0 es fileIndex' []
                            in if faults CommitHelp then Aborted (StepFailed CommitHelp) tbl' []
                               else Completed tbl' help))))))"

text \<open>
  \<open>main\<close>. The result is \<open>None\<close> when the walk does not return within the fuel, and
  otherwise how the run ended.
\<close>

definition mainRun :: "env \<Rightarrow> (step \<Rightarrow> bool) \<Rightarrow> nat \<Rightarrow> (nat \<Rightarrow> string list) \<Rightarrow> (nat \<Rightarrow> string list) \<Rightarrow> string
    \<Rightarrow> helpURLEntry list option \<Rightarrow> outcome option" where
  "mainRun E faults fuel ord1 ord2 tmpDir helpEntries =
     (if faults MkdirTemp then Some (Aborted (StepFailed MkdirTemp) [] [])
      else if faults GitClone then Some (Aborted (StepFailed GitClone) [] [])
      else
       (case collectDocs E fuel tmpDir of
          None \<Rightarrow> None
        | Some (Inl err) \<Rightarrow> Some (Aborted (RootConfig err) [] [])
        | Some (Inr st) \<Rightarrow> Some (writeDatabase E faults ord1 ord2 tmpDir helpEntries (out st))))"

text \<open>
  The database steps a run goes through, in order: those of the catalog transaction
  and, when the symbol list was read, those of the two passes over it.
\<close>

definition databaseSteps :: "helpURLEntry list option \<Rightarrow> step list" where
  "databaseSteps helpEntries =
     [OpenDatabase, CreateSchema, BeginDocs, PrepareDocs, CommitDocs]
     @ (case helpEntries of
          None \<Rightarrow> []
        | Some es \<Rightarrow> [BeginRecovery, PrepareRecovery, CommitRecovery, BeginHelp, PrepareHelp, CommitHelp])"

text \<open>
  \<open>nestsNodes E repoRoot d ns\<close>: following the inclusion directives of the navigation
  \<open>ns\<close> that load successfully never goes more than \<open>d\<close> configurations deep. No
  \<open>d\<close> satisfies it for a configuration that includes itself.
\<close>

function nestsNode :: "env \<Rightarrow> string \<Rightarrow> nat \<Rightarrow> node \<Rightarrow> bool"
  and nestsNodes :: "env \<Rightarrow> string \<Rightarrow> nat \<Rightarrow> node list \<Rightarrow> bool"
  and nestsPairs :: "env \<Rightarrow> string \<Rightarrow> nat \<Rightarrow> node list \<Rightarrow> bool"
  and nestsInclude :: "env \<Rightarrow> string \<Rightarrow> nat \<Rightarrow> string \<Rightarrow> bool"
where
  "nestsNode E repoRoot d (Node k v c) =
     (case k of
        MappingNode \<Rightarrow> nestsPairs E repoRoot d c
      | SequenceNode \<Rightarrow> nestsNodes E repoRoot d c
      | _ \<Rightarrow> True)"
| "nestsNodes E repoRoot d [] = True"
| "nestsNodes E repoRoot d (n # ns) = (nestsNode E repoRoot d n \<and> nestsNodes E repoRoot d ns)"
| "nestsPairs E repoRoot d [] = True"
| "nestsPairs E repoRoot d [key] = True"
| "nestsPairs E repoRoot d (key # Node vk vv vc # rest) =
     ((case vk of
         ScalarNode \<Rightarrow> (if hasPrefix vv ''!include '' then nestsInclude E repoRoot d vv else True)
       | SequenceNode \<Rightarrow> nestsNodes E repoRoot d vc
       | MappingNode \<Rightarrow> nestsNode E repoRoot d (Node vk vv vc)
       | _ \<Rightarrow> True)
      \<and> nestsPairs E repoRoot d rest)"
| "nestsInclude E repoRoot d v =
     (case parseMkdocs E (joinPath [repoRoot, trimSpace (trimPrefix v ''!include '')]) of
        Inl err \<Rightarrow> True
      | Inr cfg \<Rightarrow> (case d of 0 \<Rightarrow> False | Suc d' \<Rightarrow> nestsNodes E repoRoot d' (Nav cfg)))"
  by pat_completeness auto
termination
  by (relation "inv_image (less_than <*lex*> less_than)
        (\<lambda>x. case x of
           Inl (Inl (E, r, d, n)) \<Rightarrow> (d, 2 * size n + 1)
         | Inl (Inr (E, r, d, ns)) \<Rightarrow> (d, 2 * size_list size ns + 1)
         | Inr (Inl (E, r, d, ns)) \<Rightarrow> (d, 2 * size_list size ns + 1)
         | Inr (Inr (E, r, d, v)) \<Rightarrow> (d, 0))")
     auto

section \<open>Example worlds\<close>

text \<open>
  A repository at \<open>/r\<close> for the recovery pass: the sub-site \<open>lang\<close> has the pages
  \<open>symbols/iota.md\<close> (with a title), \<open>symbols/rho.md\<close> (without one) and
  \<open>symbols/index.md\<close>; the top-level document root has \<open>iota.md\<close>.
\<close>

definition recoveryEnv :: env where
  "recoveryEnv =
     \<lparr>readFile = (\<lambda>p. if p = ''/r/lang/docs/symbols/iota.md'' then Some ''# Iota''
                       else if p = ''/r/lang/docs/symbols/rho.md'' then Some ''shape''
                       else if p = ''/r/lang/docs/symbols/index.md'' then Some ''# Symbols''
                       else if p = ''/r/docs/iota.md'' then Some ''# Top iota''
                       else None),
      unmarshal = (\<lambda>d. None),
      growCap = (\<lambda>c. if c = 0 then 1 else 2 * c)\<rparr>"

text \<open>
  A repository whose root configuration lists a missing page, a link that is not a
  page, an inclusion whose file is missing, an inclusion whose file does not parse, and
  a page that exists.
\<close>

definition faultyNav :: "node list" where
  "faultyNav =
     [scalar ''missing.md'',
      scalar ''https://example.org/'',
      titled ''Sub'' (scalar ''!include ./sub/mkdocs.yml''),
      titled ''Bad'' (scalar ''!include ./bad/mkdocs.yml''),
      titled ''Good'' (scalar ''a.md'')]"

definition faultyEnv :: env where
  "faultyEnv =
     \<lparr>readFile = (\<lambda>p. if p = ''/r/mkdocs.yml'' then Some ''root''
                       else if p = ''/r/bad/mkdocs.yml'' then Some ''{''
                       else if p = ''/r/docs/a.md'' then Some ''# A''
                       else None),
      unmarshal = (\<lambda>d. if d = ''root'' then Some \<lparr>SiteName = ''Docs'', DocsDir = [], Nav = faultyNav\<rparr>
                        else None),
      growCap = (\<lambda>c. if c = 0 then 1 else 2 * c)\<rparr>"

text \<open>A repository whose root configuration includes itself.\<close>

definition cyclicNav :: "node list" where
  "cyclicNav = [titled ''Loop'' (scalar ''!include ./mkdocs.yml'')]"

definition cyclicEnv :: env where
  "cyclicEnv =
     \<lparr>readFile = (\<lambda>p. if p = ''/r/mkdocs.yml'' then Some ''root'' else None),
      unmarshal = (\<lambda>d. if d = ''root'' then Some \<lparr>SiteName = ''Docs'', DocsDir = [], Nav = cyclicNav\<rparr>
                        else None),
      growCap = (\<lambda>c. if c = 0 then 1 else 2 * c)\<rparr>"


section \<open>Breadcrumb isolation\<close>

lemma frame_refl: "frame st b st"
  by (simp add: frame_def)

lemma frame_trans: "frame st b st1 \<Longrightarrow> frame st1 b st2 \<Longrightarrow> frame st b st2"
  by (auto simp: frame_def)

lemma frame_wf: "wfSlice st b \<Longrightarrow> frame st b st1 \<Longrightarrow> wfSlice st1 b"
  by (auto simp: frame_def wfSlice_def)

lemma frame_elems: "frame st b st1 \<Longrightarrow> elems st1 b = elems st b"
  by (auto simp: frame_def elems_def)

lemma appendStr_props:
  assumes "wfSlice st b" and "appendStr E b x st = (p, st1)"
  shows "wfSlice st1 p" and "elems st1 p = elems st b @ [x]" and "collectedOf st1 = collectedOf st"
    and "frame st b st1" and "\<And>st'. frame st1 p st' \<Longrightarrow> frame st b st'"
proof -
  show "wfSlice st1 p" using assms
    by (auto simp: appendStr_def wfSlice_def elems_def Let_def split: if_splits)
  show "elems st1 p = elems st b @ [x]" using assms
    by (auto simp: appendStr_def wfSlice_def elems_def Let_def take_Suc_conv_app_nth split: if_splits)
  show "collectedOf st1 = collectedOf st" using assms
    by (auto simp: appendStr_def collectedOf_def Let_def split: if_splits)
  show "frame st b st1" using assms
    by (auto simp: appendStr_def wfSlice_def frame_def elems_def Let_def split: if_splits)
  show "frame st b st'" if f: "frame st1 p st'" for st'
  proof (cases "slen b < scap b")
    case True
    with assms(2) have p: "p = b\<lparr>slen := slen b + 1\<rparr>"
      and st1: "st1 = st\<lparr>heap := (heap st)(sptr b := (heap st (sptr b))[slen b := x])\<rparr>"
      by (auto simp: appendStr_def)
    from f have "take (slen b) (take (Suc (slen b)) (heap st' (sptr b))) = take (slen b) (take (Suc (slen b)) (heap st1 (sptr b)))"
      by (simp add: frame_def p)
    then have "take (slen b) (heap st' (sptr b)) = take (slen b) (heap st (sptr b))"
      by (simp add: st1 min_def)
    with f show ?thesis
      by (auto simp: frame_def p st1)
  next
    case False
    with assms(2) have p: "sptr p = nextArr st" "nextArr st1 = nextArr st + 1"
      and h: "\<And>a. a \<noteq> nextArr st \<Longrightarrow> heap st1 a = heap st a"
      by (auto simp: appendStr_def Let_def)
    from assms(1) have lt: "sptr b < nextArr st" by (simp add: wfSlice_def)
    with f p h show ?thesis
      by (auto simp: frame_def)
  qed
qed

lemma addDoc_sim:
  assumes "wfSlice st b"
  shows "collectedOf (addDoc E m dd rr b st) = addDoc_pure E m dd rr (elems st b) (collectedOf st)"
    and "frame st b (addDoc E m dd rr b st)"
proof -
  have n: "length (elems st b) = slen b"
    using assms by (auto simp: wfSlice_def elems_def)
  have l: "heap st (sptr b) ! (slen b - 1) = last (elems st b)" if "slen b > 0"
  proof -
    from that n have ne: "elems st b \<noteq> []" by auto
    have "last (elems st b) = elems st b ! (slen b - 1)"
      using last_conv_nth[OF ne] n by simp
    also have "\<dots> = heap st (sptr b) ! (slen b - 1)"
      using that by (simp add: elems_def)
    finally show ?thesis by simp
  qed
  show "collectedOf (addDoc E m dd rr b st) = addDoc_pure E m dd rr (elems st b) (collectedOf st)"
    using l n by (auto simp: addDoc_def addDoc_pure_def collectedOf_def Let_def split: option.splits prod.splits)
  show "frame st b (addDoc E m dd rr b st)"
    by (auto simp: addDoc_def frame_def Let_def split: option.splits prod.splits)
qed

lemma sim_lift:
  assumes "wfSlice st b" and "appendStr E b x st = (p, st1)" and "sim st1 p r rp"
  shows "sim st b r rp"
  using assms appendStr_props(5)[OF assms(1,2)]
  by (auto simp: sim_def split: option.splits)

lemma sim_seq:
  assumes "sim st b r rp" and "wfSlice st b"
    and "\<And>st1. r = Some st1 \<Longrightarrow> wfSlice st1 b \<Longrightarrow> elems st1 b = elems st b \<Longrightarrow>
           sim st1 b (g st1) (gp (collectedOf st1))"
  shows "sim st b (case r of None \<Rightarrow> None | Some st1 \<Rightarrow> g st1) (case rp of None \<Rightarrow> None | Some c \<Rightarrow> gp c)"
proof (cases r)
  case None
  with assms(1) show ?thesis by (simp add: sim_def)
next
  case (Some st1)
  with assms(1) have rp: "rp = Some (collectedOf st1)" and f: "frame st b st1"
    by (auto simp: sim_def)
  from assms(3)[OF Some frame_wf[OF assms(2) f] frame_elems[OF f]]
  have "sim st1 b (g st1) (gp (collectedOf st1))" .
  with Some rp f show ?thesis
    by (auto simp: sim_def split: option.splits intro: frame_trans)
qed

lemma walk_sim:
  "wfSlice st b \<longrightarrow> sim st b (walkNavNode E fuel n dd rr b st) (walkNavNode_pure E fuel n dd rr (elems st b) (collectedOf st))"
  "wfSlice st b \<longrightarrow> sim st b (walkNav E fuel ns dd rr b st) (walkNav_pure E fuel ns dd rr (elems st b) (collectedOf st))"
  "wfSlice st b \<longrightarrow> sim st b (walkPairs E fuel ps dd rr b st) (walkPairs_pure E fuel ps dd rr (elems st b) (collectedOf st))"
  "wfSlice st b \<longrightarrow> sim st b (handleInclude E fuel v pt rr b st) (handleInclude_pure E fuel v pt rr (elems st b) (collectedOf st))"
proof (induction E fuel n dd rr b st and E fuel ns dd rr b st and E fuel ps dd rr b st and E fuel v pt rr b st
    rule: walkNavNode_walkNav_walkPairs_handleInclude.induct)
  case (1 E fuel k v c docsDir repoRoot breadcrumb st)
  then show ?case
    by (cases k) (auto simp: sim_def addDoc_sim frame_refl)
next
  case (2 E fuel docsDir repoRoot breadcrumb st)
  then show ?case by (simp add: sim_def frame_refl)
next
  case (3 E fuel n ns docsDir repoRoot breadcrumb st)
  show ?case
  proof
    assume wf: "wfSlice st breadcrumb"
    from 3(1) wf have s1: "sim st breadcrumb (walkNavNode E fuel n docsDir repoRoot breadcrumb st)
        (walkNavNode_pure E fuel n docsDir repoRoot (elems st breadcrumb) (collectedOf st))" by simp
    have "sim st breadcrumb
        (case walkNavNode E fuel n docsDir repoRoot breadcrumb st of None \<Rightarrow> None
         | Some st1 \<Rightarrow> walkNav E fuel ns docsDir repoRoot breadcrumb st1)
        (case walkNavNode_pure E fuel n docsDir repoRoot (elems st breadcrumb) (collectedOf st) of None \<Rightarrow> None
         | Some c \<Rightarrow> walkNav_pure E fuel ns docsDir repoRoot (elems st breadcrumb) c)"
    proof (rule sim_seq[OF s1 wf])
      fix st1
      assume "walkNavNode E fuel n docsDir repoRoot breadcrumb st = Some st1" "wfSlice st1 breadcrumb"
        "elems st1 breadcrumb = elems st breadcrumb"
      with 3(2) show "sim st1 breadcrumb (walkNav E fuel ns docsDir repoRoot breadcrumb st1)
          (walkNav_pure E fuel ns docsDir repoRoot (elems st breadcrumb) (collectedOf st1))"
        by simp
    qed
    then show "sim st breadcrumb (walkNav E fuel (n # ns) docsDir repoRoot breadcrumb st)
       (walkNav_pure E fuel (n # ns) docsDir repoRoot (elems st breadcrumb) (collectedOf st))"
      by simp
  qed
next
  case (4 E fuel docsDir repoRoot breadcrumb st)
  then show ?case by (simp add: sim_def frame_refl)
next
  case (5 E fuel key docsDir repoRoot breadcrumb st)
  then show ?case by (simp add: sim_def frame_refl)
next
  case (6 E fuel key vk vv vc rest docsDir repoRoot breadcrumb st)
  show ?case
  proof
    assume wf: "wfSlice st breadcrumb"
    obtain p st1 where ap: "appendStr E breadcrumb (Value key) st = (p, st1)"
      by (cases "appendStr E breadcrumb (Value key) st") auto
    note props = appendStr_props[OF wf ap]
    let ?r = "(case vk of
           ScalarNode \<Rightarrow>
             if hasPrefix vv ''!include ''
             then handleInclude E fuel vv (Value key) repoRoot breadcrumb st
             else (case appendStr E breadcrumb (Value key) st of
                     (path1, st1) \<Rightarrow> Some (addDoc E vv docsDir repoRoot path1 st1))
         | SequenceNode \<Rightarrow>
             (case appendStr E breadcrumb (Value key) st of
                (path1, st1) \<Rightarrow> walkNav E fuel vc docsDir repoRoot path1 st1)
         | MappingNode \<Rightarrow>
             (case appendStr E breadcrumb (Value key) st of
                (path1, st1) \<Rightarrow> walkNavNode E fuel (Node vk vv vc) docsDir repoRoot path1 st1)
         | _ \<Rightarrow> Some st)"
    let ?bc = "elems st breadcrumb"
    let ?rp = "(case vk of
           ScalarNode \<Rightarrow>
             if hasPrefix vv ''!include ''
             then handleInclude_pure E fuel vv (Value key) repoRoot ?bc (collectedOf st)
             else Some (addDoc_pure E vv docsDir repoRoot (?bc @ [Value key]) (collectedOf st))
         | SequenceNode \<Rightarrow> walkNav_pure E fuel vc docsDir repoRoot (?bc @ [Value key]) (collectedOf st)
         | MappingNode \<Rightarrow>
             walkNavNode_pure E fuel (Node vk vv vc) docsDir repoRoot (?bc @ [Value key]) (collectedOf st)
         | _ \<Rightarrow> Some (collectedOf st))"
    have s1: "sim st breadcrumb ?r ?rp"
    proof (cases vk)
      case DocumentNode
      then show ?thesis by (simp add: sim_def frame_refl)
    next
      case SequenceNode
      from 6(1)[OF SequenceNode ap[symmetric]] props(1)
      have "sim st1 p (walkNav E fuel vc docsDir repoRoot p st1)
              (walkNav_pure E fuel vc docsDir repoRoot (elems st1 p) (collectedOf st1))" by simp
      from sim_lift[OF wf ap this] show ?thesis
        by (simp add: SequenceNode ap props(2,3))
    next
      case MappingNode
      from 6(2)[OF MappingNode ap[symmetric]] props(1)
      have "sim st1 p (walkNavNode E fuel (Node vk vv vc) docsDir repoRoot p st1)
              (walkNavNode_pure E fuel (Node vk vv vc) docsDir repoRoot (elems st1 p) (collectedOf st1))" by simp
      from sim_lift[OF wf ap this] show ?thesis
        by (simp add: MappingNode ap props(2,3))
    next
      case ScalarNode
      show ?thesis
      proof (cases "hasPrefix vv ''!include ''")
        case True
        with 6(3)[OF ScalarNode True] wf show ?thesis by (simp add: ScalarNode)
      next
        case False
        have "sim st1 p (Some (addDoc E vv docsDir repoRoot p st1))
                (Some (addDoc_pure E vv docsDir repoRoot (elems st1 p) (collectedOf st1)))"
          using addDoc_sim[OF props(1)] by (simp add: sim_def)
        from sim_lift[OF wf ap this] show ?thesis
          by (simp add: ScalarNode False ap props(2,3))
      qed
    next
      case AliasNode
      then show ?thesis by (simp add: sim_def frame_refl)
    qed
    have "sim st breadcrumb
        (case ?r of None \<Rightarrow> None | Some st2 \<Rightarrow> walkPairs E fuel rest docsDir repoRoot breadcrumb st2)
        (case ?rp of None \<Rightarrow> None | Some c \<Rightarrow> walkPairs_pure E fuel rest docsDir repoRoot ?bc c)"
    proof (rule sim_seq[OF s1 wf])
      fix st2
      assume "?r = Some st2" "wfSlice st2 breadcrumb" "elems st2 breadcrumb = elems st breadcrumb"
      with 6(4) show "sim st2 breadcrumb (walkPairs E fuel rest docsDir repoRoot breadcrumb st2)
          (walkPairs_pure E fuel rest docsDir repoRoot ?bc (collectedOf st2))"
        by simp
    qed
    moreover have "walkPairs_pure E fuel (key # Node vk vv vc # rest) docsDir repoRoot ?bc (collectedOf st)
        = (case ?rp of None \<Rightarrow> None | Some c \<Rightarrow> walkPairs_pure E fuel rest docsDir repoRoot ?bc c)"
      by (cases vk) simp_all
    ultimately show "sim st breadcrumb (walkPairs E fuel (key # Node vk vv vc # rest) docsDir repoRoot breadcrumb st)
        (walkPairs_pure E fuel (key # Node vk vv vc # rest) docsDir repoRoot ?bc (collectedOf st))"
      by simp
  qed
next
  case (7 E fuel v parentTitle repoRoot breadcrumb st)
  show ?case
  proof
    assume wf: "wfSlice st breadcrumb"
    let ?relPath = "trimSpace (trimPrefix v ''!include '')"
    let ?absPath = "joinPath [repoRoot, ?relPath]"
    show "sim st breadcrumb (handleInclude E fuel v parentTitle repoRoot breadcrumb st)
       (handleInclude_pure E fuel v parentTitle repoRoot (elems st breadcrumb) (collectedOf st))"
    proof (cases "parseMkdocs E ?absPath")
      case (Inl err)
      then show ?thesis
        by (simp add: sim_def frame_def collectedOf_def)
    next
      case (Inr cfg)
      obtain p st1 where ap: "appendStr E breadcrumb parentTitle st = (p, st1)"
        by (cases "appendStr E breadcrumb parentTitle st") auto
      note props = appendStr_props[OF wf ap]
      show ?thesis
      proof (cases fuel)
        case 0
        with Inr ap show ?thesis by (simp add: sim_def)
      next
        case (Suc fuel')
        from 7[OF refl refl Inr refl refl refl ap[symmetric] Suc] props(1)
        have "sim st1 p
           (walkNav E fuel' (Nav cfg) (joinPath [dirPath ?absPath, if DocsDir cfg = [] then ''docs'' else DocsDir cfg]) repoRoot p st1)
           (walkNav_pure E fuel' (Nav cfg) (joinPath [dirPath ?absPath, if DocsDir cfg = [] then ''docs'' else DocsDir cfg]) repoRoot (elems st1 p) (collectedOf st1))"
          by simp
        from sim_lift[OF wf ap this] show ?thesis
          by (simp add: Inr ap Suc props(2,3))
      qed
    qed
  qed
qed

text \<open>
  C1: started on a well-formed breadcrumb slice, the walker (whose \<open>append\<close> may write
  into an array shared between sibling branches) collects exactly the entries and
  warnings of the walker that copies the breadcrumb at every extension, for every
  navigation tree; and when a branch returns, the breadcrumb of its caller holds the
  same titles as before, so the next sibling starts from an unchanged prefix.
\<close>

theorem breadcrumb_isolation:
  assumes "wfSlice st b"
  shows "map_option collectedOf (walkNavNode E fuel n docsDir repoRoot b st)
           = walkNavNode_pure E fuel n docsDir repoRoot (elems st b) (collectedOf st)
    \<and> map_option collectedOf (walkNav E fuel ns docsDir repoRoot b st)
           = walkNav_pure E fuel ns docsDir repoRoot (elems st b) (collectedOf st)
    \<and> (\<forall>st'. walkNavNode E fuel n docsDir repoRoot b st = Some st' \<longrightarrow> elems st' b = elems st b)
    \<and> (\<forall>st'. walkNav E fuel ns docsDir repoRoot b st = Some st' \<longrightarrow> elems st' b = elems st b)"
  using walk_sim(1)[of st b E fuel n docsDir repoRoot] walk_sim(2)[of st b E fuel ns docsDir repoRoot] assms
  by (auto simp: sim_def frame_elems split: option.splits)

text \<open>
  C1, witness: the run of \<open>main\<close> on the example starts from the nil slice. It emits the
  paths \<open>Top / S / X / A\<close> and \<open>Top / S / X / B\<close>, which differ in the sibling segment
  only, although array 3 was written by both branches and ends holding \<open>B\<close>.
\<close>

theorem breadcrumb_isolation_witness:
  "wfSlice initState nilSlice
   \<and> map_option collectedOf (walkNav siblingsEnv 0 siblingsNav ''/r/docs'' ''/r'' nilSlice initState)
       = walkNav_pure siblingsEnv 0 siblingsNav ''/r/docs'' ''/r'' [] (collectedOf initState)
   \<and> map_option (\<lambda>st. map path (out st)) (walkNav siblingsEnv 0 siblingsNav ''/r/docs'' ''/r'' nilSlice initState)
       = Some [''Top / S / X / A'', ''Top / S / X / B'']
   \<and> map_option (\<lambda>st. heap st 3) (walkNav siblingsEnv 0 siblingsNav ''/r/docs'' ''/r'' nilSlice initState)
       = Some [''Top'', ''S'', ''X'', ''B'']"
proof -
  have wf: "wfSlice initState nilSlice"
    by (simp add: wfSlice_def initState_def nilSlice_def)
  have e: "elems initState nilSlice = []"
    by (simp add: elems_def nilSlice_def)
  have p: "map_option (\<lambda>st. map path (out st)) (walkNav siblingsEnv 0 siblingsNav ''/r/docs'' ''/r'' nilSlice initState)
       = Some [''Top / S / X / A'', ''Top / S / X / B'']"
    by code_simp
  have h: "map_option (\<lambda>st. heap st 3) (walkNav siblingsEnv 0 siblingsNav ''/r/docs'' ''/r'' nilSlice initState)
       = Some [''Top'', ''S'', ''X'', ''B'']"
    by code_simp
  from breadcrumb_isolation[OF wf, of siblingsEnv 0 _ "''/r/docs''" "''/r''" siblingsNav] e wf p h
  show ?thesis by simp
qed

section \<open>Path Normalizer: properties\<close>

text \<open>
  C2, as stated, at its second example: the root index page \<open>docs/index.md\<close> does not
  normalize to the empty string. After the leading \<open>docs/\<close> and the extension are
  stripped the path is \<open>index\<close>, which does not end in \<open>/index\<close>, so the last rule leaves it.
\<close>

theorem normalizeFilePath_root_index_not_empty:
  "normalizeFilePath ''docs/index.md'' \<noteq> []"
  by (simp add: normalizeFilePath_def hasPrefix_def hasSuffix_def trimPrefix_def trimSuffix_def)

text \<open>
  C2, amended: \<open>normalizeFilePath\<close> applies, in this order, the replacement of every
  \<open>/docs/\<close> by \<open>/\<close>, the removal of a leading \<open>docs/\<close>, the removal of a trailing \<open>.md\<close> and
  the removal of a trailing \<open>/index\<close> (the separator included, so a path that is only
  \<open>index\<close> is kept). It maps \<open>site/docs/symbols/iota.md\<close> to \<open>site/symbols/iota\<close>,
  \<open>docs/index.md\<close> to \<open>index\<close> and \<open>site/docs/foo/index.md\<close> to \<open>site/foo\<close>.
\<close>

theorem normalizeFilePath_rules_in_order:
  "normalizeFilePath f =
     trimSuffix (trimSuffix (trimPrefix (replaceAll f ''/docs/'' ''/'') ''docs/'') ''.md'') ''/index''
   \<and> normalizeFilePath ''site/docs/symbols/iota.md'' = ''site/symbols/iota''
   \<and> normalizeFilePath ''docs/index.md'' = ''index''
   \<and> normalizeFilePath ''site/docs/foo/index.md'' = ''site/foo''"
proof -
  have order: "normalizeFilePath f =
     trimSuffix (trimSuffix (trimPrefix (replaceAll f ''/docs/'' ''/'') ''docs/'') ''.md'') ''/index''"
    by (simp add: normalizeFilePath_def)
  have iota: "normalizeFilePath ''site/docs/symbols/iota.md'' = ''site/symbols/iota''"
    by (simp add: normalizeFilePath_def hasPrefix_def hasSuffix_def trimPrefix_def trimSuffix_def)
  have root: "normalizeFilePath ''docs/index.md'' = ''index''"
    by (simp add: normalizeFilePath_def hasPrefix_def hasSuffix_def trimPrefix_def trimSuffix_def)
  have foo: "normalizeFilePath ''site/docs/foo/index.md'' = ''site/foo''"
    by (simp add: normalizeFilePath_def hasPrefix_def hasSuffix_def trimPrefix_def trimSuffix_def)
  from order iota root foo show ?thesis by (intro conjI)
qed

section \<open>Catalog: path uniqueness\<close>

lemma insertDocs_paths:
  "set (map path (insertDocs ds tbl)) = set (map path tbl) \<union> set (map path ds)"
  by (induction ds arbitrary: tbl) (auto simp: insertOrIgnore_def)

lemma insertDocs_distinct:
  "distinct (map path tbl) \<Longrightarrow> distinct (map path (insertDocs ds tbl))"
  by (induction ds arbitrary: tbl) (auto simp: insertOrIgnore_def)

lemma insertDocs_first:
  "d \<in> set (insertDocs ds tbl) \<Longrightarrow>
   d \<in> set tbl \<or> (path d \<notin> set (map path tbl) \<and> find (\<lambda>e. path e = path d) ds = Some d)"
proof (induction ds arbitrary: tbl)
  case Nil
  then show ?case by simp
next
  case (Cons a ds)
  from Cons.IH[OF Cons.prems[simplified]] show ?case
    by (auto simp: insertOrIgnore_def split: if_splits)
qed

lemma recoverOne_distinct:
  "distinct (map path (fst s)) \<Longrightarrow> distinct (map path (fst (recoverOne E ks tmpDir e s)))"
  by (cases s) (auto simp: recoverOne_def insertOrIgnore_def split: option.splits)

lemma recoveryPass_distinct:
  "distinct (map path (fst s)) \<Longrightarrow> distinct (map path (fst (recoveryPass E ord i tmpDir es s)))"
  by (induction es arbitrary: i s) (simp_all add: recoverOne_distinct)

lemma writeTables_distinct:
  "distinct (map path (fst (writeTables E ordA ordB tmpDir helpEntries ds)))"
proof (cases helpEntries)
  case None
  then show ?thesis by (simp add: writeTables_def insertDocs_distinct)
next
  case (Some es)
  obtain t f a where r:
    "recoveryPass E ordA 0 tmpDir es (insertDocs ds [], buildIndex ds Map.empty, 0) = (t, f, a)"
    by (rule prod_cases3)
  have "distinct (map path (fst (insertDocs ds [], buildIndex ds Map.empty, 0::nat)))"
    by (simp add: insertDocs_distinct)
  from recoveryPass_distinct[OF this, of E ordA 0 tmpDir es] r have "distinct (map path t)"
    by simp
  with Some r show ?thesis
    by (simp add: writeTables_def)
qed

text \<open>
  C3: in the table written from the entries \<open>ds\<close> (in traversal order, into an empty
  table) no two rows have the same \<open>path\<close>, every path of \<open>ds\<close> has a row, and the row
  kept for a path is the first entry of \<open>ds\<close> with that path: a later entry with the same
  path is dropped. The paths are still distinct in the table at the end of the run, after
  the recovery pass has added its rows.
\<close>

theorem catalog_path_unique_first_wins:
  "distinct (map path (insertDocs ds []))
   \<and> set (map path (insertDocs ds [])) = set (map path ds)
   \<and> (\<forall>d \<in> set (insertDocs ds []). find (\<lambda>e. path e = path d) ds = Some d)
   \<and> distinct (map path (fst (writeTables E ordA ordB tmpDir helpEntries ds)))"
  using insertDocs_distinct[of "[]" ds] insertDocs_paths[of ds "[]"] insertDocs_first[of _ ds "[]"]
    writeTables_distinct[of E ordA ordB tmpDir helpEntries ds]
  by auto

text \<open>
  C3, witness: two leaves with the breadcrumb \<open>Guide / Intro\<close>; the table keeps one row,
  the one read from \<open>a.md\<close>.
\<close>

theorem catalog_path_unique_first_wins_witness:
  "insertDocs
     [\<lparr>path = ''Guide / Intro'', file = ''docs/a.md'', title = ''A'', keywords = [], content = ''a'', exclude = False\<rparr>,
      \<lparr>path = ''Guide / Intro'', file = ''docs/b.md'', title = ''B'', keywords = [], content = ''b'', exclude = False\<rparr>] []
   = [\<lparr>path = ''Guide / Intro'', file = ''docs/a.md'', title = ''A'', keywords = [], content = ''a'', exclude = False\<rparr>]
   \<and> distinct (map path (insertDocs
     [\<lparr>path = ''Guide / Intro'', file = ''docs/a.md'', title = ''A'', keywords = [], content = ''a'', exclude = False\<rparr>,
      \<lparr>path = ''Guide / Intro'', file = ''docs/b.md'', title = ''B'', keywords = [], content = ''b'', exclude = False\<rparr>] []))
   \<and> map file (insertDocs
     [\<lparr>path = ''Guide / Intro'', file = ''docs/a.md'', title = ''A'', keywords = [], content = ''a'', exclude = False\<rparr>,
      \<lparr>path = ''Guide / Intro'', file = ''docs/b.md'', title = ''B'', keywords = [], content = ''b'', exclude = False\<rparr>] [])
     = [''docs/a.md'']"
  using catalog_path_unique_first_wins[of
     "[\<lparr>path = ''Guide / Intro'', file = ''docs/a.md'', title = ''A'', keywords = [], content = ''a'', exclude = False\<rparr>,
      \<lparr>path = ''Guide / Intro'', file = ''docs/b.md'', title = ''B'', keywords = [], content = ''b'', exclude = False\<rparr>]"]
  by (simp add: insertOrIgnore_def)

section \<open>Content Normalizer: properties\<close>

lemma lit_match:
  "rmatch (lit l @ r) s cap = (if hasPrefix s l then rmatch r (drop (length l) s) cap else None)"
proof (induction l arbitrary: s)
  case Nil
  then show ?case by (simp add: lit_def hasPrefix_def)
next
  case (Cons c l)
  then show ?case by (cases s) (auto simp: lit_def hasPrefix_def)
qed

lemma star_stop:
  "s = [] \<or> \<not> inCls K (hd s) \<Longrightarrow> rmatch (Star K g # r) s cap = rmatch r s cap"
  by (cases s) auto

lemma star_unique:
  assumes "\<forall>x\<in>set a. inCls K x"
    and "s = [] \<or> \<not> inCls K (hd s)"
    and "\<forall>u t. a = u @ t \<longrightarrow> rmatch r (t @ s) cap = None \<or> rmatch r (t @ s) cap = Some m"
  shows "rmatch (Star K False # r) (a @ s) cap
         = (if \<exists>u t. a = u @ t \<and> rmatch r (t @ s) cap = Some m then Some m else None)"
  using assms
proof (induction a)
  case Nil
  then show ?case using star_stop[of s K False r cap] by auto
next
  case (Cons x a)
  have ih: "rmatch (Star K False # r) (a @ s) cap
         = (if \<exists>u t. a = u @ t \<and> rmatch r (t @ s) cap = Some m then Some m else None)"
  proof (rule Cons.IH)
    show "\<forall>x\<in>set a. inCls K x" using Cons.prems(1) by simp
    show "s = [] \<or> \<not> inCls K (hd s)" by (rule Cons.prems(2))
    show "\<forall>u t. a = u @ t \<longrightarrow> rmatch r (t @ s) cap = None \<or> rmatch r (t @ s) cap = Some m"
    proof (intro allI impI)
      fix u t assume "a = u @ t"
      then have "x # a = (x # u) @ t" by simp
      with Cons.prems(3) show "rmatch r (t @ s) cap = None \<or> rmatch r (t @ s) cap = Some m" by blast
    qed
  qed
  have whole: "rmatch r ((x # a) @ s) cap = None \<or> rmatch r ((x # a) @ s) cap = Some m"
    using Cons.prems(3)[rule_format, of "[]" "x # a"] by simp
  from Cons.prems(1) have inx: "inCls K x" by simp
  show ?case
  proof (cases "\<exists>u t. a = u @ t \<and> rmatch r (t @ s) cap = Some m")
    case True
    then obtain u t where "a = u @ t" "rmatch r (t @ s) cap = Some m" by blast
    then have "x # a = (x # u) @ t \<and> rmatch r (t @ s) cap = Some m" by simp
    then have ex: "\<exists>u t. x # a = u @ t \<and> rmatch r (t @ s) cap = Some m" by blast
    from True ih have "rmatch (Star K False # r) (a @ s) cap = Some m" by simp
    with inx ex show ?thesis by (simp add: grab_def)
  next
    case False
    with ih have n: "rmatch (Star K False # r) (a @ s) cap = None" by simp
    have "(\<exists>u t. x # a = u @ t \<and> rmatch r (t @ s) cap = Some m) \<longleftrightarrow> rmatch r ((x # a) @ s) cap = Some m"
    proof
      assume "\<exists>u t. x # a = u @ t \<and> rmatch r (t @ s) cap = Some m"
      then obtain u t where ut: "x # a = u @ t" "rmatch r (t @ s) cap = Some m" by blast
      show "rmatch r ((x # a) @ s) cap = Some m"
      proof (cases u)
        case Nil
        with ut show ?thesis by simp
      next
        case (Cons y u')
        with ut(1) have "a = u' @ t" by simp
        with ut(2) False show ?thesis by blast
      qed
    next
      assume "rmatch r ((x # a) @ s) cap = Some m"
      then have "x # a = [] @ (x # a) \<and> rmatch r ((x # a) @ s) cap = Some m" by simp
      then show "\<exists>u t. x # a = u @ t \<and> rmatch r (t @ s) cap = Some m" by blast
    qed
    with n inx whole show ?thesis by (auto simp: grab_def)
  qed
qed


lemma starSpace: "rmatch [Star Space False] s cap = Some (cap, dropWhile (inCls Space) s)"
  by (induction s arbitrary: cap) (auto simp: grab_def)

lemma occurs_append_right: "occurs sub b \<Longrightarrow> occurs sub (a @ b)"
  by (induction a) auto

lemma occurs_dropWhile: "\<not> occurs sub s \<Longrightarrow> \<not> occurs sub (dropWhile P s)"
  using occurs_append_right[of sub "dropWhile P s" "takeWhile P s"] by auto

lemma prefix_within:
  assumes "hasPrefix (z @ c # u) l" and "c \<notin> set l"
  shows "length l \<le> length z"
proof (rule ccontr)
  assume "\<not> length l \<le> length z"
  then have lt: "length z < length l" by simp
  from assms(1) have "take (length l) (z @ c # u) = l" by (simp add: hasPrefix_def)
  then have "l ! length z = take (length l) (z @ c # u) ! length z" by simp
  also have "\<dots> = (z @ c # u) ! length z" by (rule nth_take[OF lt])
  also have "\<dots> = c" by simp
  finally have "l ! length z = c" .
  with lt have "c \<in> set l" by (metis nth_mem)
  with assms(2) show False by simp
qed

lemma no_straddle_close:
  assumes "hasPrefix ((x # k) @ ''</div>'' @ rest) ''</div>''"
  shows "hasPrefix (x # k) ''</div>''"
proof -
  from assms have x: "x = CHR ''<''" and t: "hasPrefix (k @ CHR ''<'' # (''/div>'' @ rest)) ''/div>''"
    by (simp_all add: hasPrefix_def)
  from prefix_within[OF t] have "length ''/div>'' \<le> length k" by simp
  with t have "hasPrefix k ''/div>''" by (simp add: hasPrefix_def)
  with x show ?thesis by (simp add: hasPrefix_def)
qed

lemma no_straddle_open:
  assumes "hasPrefix ((x # g) @ s) ''<div''" and "s = [] \<or> hd s = CHR ''<''"
  shows "hasPrefix (x # g) ''<div''"
proof (cases s)
  case Nil
  with assms(1) show ?thesis by simp
next
  case (Cons y s')
  with assms(2) have y: "y = CHR ''<''" by simp
  from assms(1) have x: "x = CHR ''<''" and t: "hasPrefix (g @ CHR ''<'' # s') ''div''"
    by (simp_all add: hasPrefix_def Cons y)
  from prefix_within[OF t] have "length ''div'' \<le> length g" by simp
  with t have "hasPrefix g ''div''" by (simp add: hasPrefix_def)
  with x show ?thesis by (simp add: hasPrefix_def)
qed

lemma lazy_first: "rmatch r s cap = Some m \<Longrightarrow> rmatch (Lazy k g # r) s cap = Some m"
  by (cases s) auto

lemma lazy_next:
  "rmatch r (x # xs) cap = None \<Longrightarrow> inCls k x \<Longrightarrow>
   rmatch (Lazy k g # r) (x # xs) cap = rmatch (Lazy k g # r) xs (grab g cap x)"
  by simp

lemma close_div:
  "rmatch (lit ''</div>'' @ [Star Space False]) (''</div>'' @ rest) cap
     = Some (cap, dropWhile (inCls Space) rest)"
proof -
  have "hasPrefix (''</div>'' @ rest) ''</div>''" by (simp add: hasPrefix_def)
  then have "rmatch (lit ''</div>'' @ [Star Space False]) (''</div>'' @ rest) cap
      = rmatch [Star Space False] (drop (length ''</div>'') (''</div>'' @ rest)) cap"
    by (simp only: lit_match if_True)
  also have "drop (length ''</div>'') (''</div>'' @ rest) = rest" by simp
  finally show ?thesis by (simp only: starSpace)
qed

lemma lazy_div:
  "\<not> occurs ''</div>'' k \<Longrightarrow>
   rmatch (Lazy DotAll True # lit ''</div>'' @ [Star Space False]) (k @ ''</div>'' @ rest) cap
     = Some (cap @ k, dropWhile (inCls Space) rest)"
proof (induction k arbitrary: cap)
  case Nil
  show ?case by (simp only: append_Nil append_Nil2 lazy_first[OF close_div])
next
  case (Cons x k)
  from Cons.prems have nk: "\<not> occurs ''</div>'' k" and nx: "\<not> hasPrefix (x # k) ''</div>''"
    by simp_all
  from nx no_straddle_close[of x k rest] have "\<not> hasPrefix ((x # k) @ ''</div>'' @ rest) ''</div>''"
    by blast
  then have "rmatch (lit ''</div>'' @ [Star Space False]) ((x # k) @ ''</div>'' @ rest) cap = None"
    by (simp only: lit_match if_False)
  then have f: "rmatch (lit ''</div>'' @ [Star Space False]) (x # (k @ ''</div>'' @ rest)) cap = None"
    by (simp only: append_Cons)
  have "rmatch (Lazy DotAll True # lit ''</div>'' @ [Star Space False]) ((x # k) @ ''</div>'' @ rest) cap
      = rmatch (Lazy DotAll True # lit ''</div>'' @ [Star Space False]) (x # (k @ ''</div>'' @ rest)) cap"
    by (simp only: append_Cons)
  also have "\<dots> = rmatch (Lazy DotAll True # lit ''</div>'' @ [Star Space False]) (k @ ''</div>'' @ rest) (grab True cap x)"
    by (rule lazy_next[OF f]) simp
  also have "grab True cap x = cap @ [x]" by (simp add: grab_def)
  also have "rmatch (Lazy DotAll True # lit ''</div>'' @ [Star Space False]) (k @ ''</div>'' @ rest) (cap @ [x])
      = Some ((cap @ [x]) @ k, dropWhile (inCls Space) rest)"
    by (rule Cons.IH[OF nk])
  finally show ?case by (simp only: append_assoc append_Cons append_Nil)
qed

lemma tag_end:
  "CHR ''>'' \<notin> set t \<Longrightarrow> \<not> occurs ''</div>'' k \<Longrightarrow>
   rmatch (Star NotGt False # Chr CHR ''>'' # Lazy DotAll True # lit ''</div>'' @ [Star Space False])
      (t @ CHR ''>'' # k @ ''</div>'' @ rest) []
     = Some (k, dropWhile (inCls Space) rest)"
  using lazy_div[of k rest "[]"]
  by (induction t) (auto simp: grab_def)

lemma none_part:
  assumes "CHR ''>'' \<notin> set z" and "\<not> occurs ''</div>'' k"
  shows "rmatch (lit ''none'' @ Star NotGt False # Chr CHR ''>'' # Lazy DotAll True # lit ''</div>'' @ [Star Space False])
      (z @ CHR ''>'' # k @ ''</div>'' @ rest) [] = None
    \<or> rmatch (lit ''none'' @ Star NotGt False # Chr CHR ''>'' # Lazy DotAll True # lit ''</div>'' @ [Star Space False])
      (z @ CHR ''>'' # k @ ''</div>'' @ rest) [] = Some (k, dropWhile (inCls Space) rest)"
proof (cases "hasPrefix (z @ CHR ''>'' # k @ ''</div>'' @ rest) ''none''")
  case False
  then show ?thesis by (simp add: lit_match)
next
  case True
  from prefix_within[OF True] have "length ''none'' \<le> length z" by simp
  then have d: "drop (length ''none'') (z @ CHR ''>'' # k @ ''</div>'' @ rest)
       = drop (length ''none'') z @ CHR ''>'' # k @ ''</div>'' @ rest" by simp
  have "CHR ''>'' \<notin> set (drop (length ''none'') z)"
    using assms(1) by (meson in_set_dropD)
  note te = tag_end[OF this assms(2), of rest]
  have "rmatch (lit ''none'' @ Star NotGt False # Chr CHR ''>'' # Lazy DotAll True # lit ''</div>'' @ [Star Space False])
      (z @ CHR ''>'' # k @ ''</div>'' @ rest) []
     = rmatch (Star NotGt False # Chr CHR ''>'' # Lazy DotAll True # lit ''</div>'' @ [Star Space False])
      (drop (length ''none'') (z @ CHR ''>'' # k @ ''</div>'' @ rest)) []"
    using True by (simp only: lit_match if_True)
  also have "\<dots> = Some (k, dropWhile (inCls Space) rest)"
    by (simp only: d te)
  finally show ?thesis by simp
qed

lemma space_part:
  assumes "CHR ''>'' \<notin> set z" and "\<not> occurs ''</div>'' k"
  shows "rmatch (Star Space False # lit ''none'' @ Star NotGt False # Chr CHR ''>'' # Lazy DotAll True # lit ''</div>'' @ [Star Space False])
      (z @ CHR ''>'' # k @ ''</div>'' @ rest) [] = None
    \<or> rmatch (Star Space False # lit ''none'' @ Star NotGt False # Chr CHR ''>'' # Lazy DotAll True # lit ''</div>'' @ [Star Space False])
      (z @ CHR ''>'' # k @ ''</div>'' @ rest) [] = Some (k, dropWhile (inCls Space) rest)"
proof -
  let ?a = "takeWhile (inCls Space) z"
  let ?d = "dropWhile (inCls Space) z"
  let ?U = "CHR ''>'' # k @ ''</div>'' @ rest"
  let ?s = "?d @ ?U"
  let ?r = "lit ''none'' @ Star NotGt False # Chr CHR ''>'' # Lazy DotAll True # lit ''</div>'' @ [Star Space False]"
  let ?m = "(k, dropWhile (inCls Space) rest)"
  have a1: "\<forall>x\<in>set ?a. inCls Space x" by (meson set_takeWhileD)
  have a2: "?s = [] \<or> \<not> inCls Space (hd ?s)"
  proof (cases ?d)
    case Nil
    have "\<not> inCls Space (hd ([] @ ?U))" by simp
    then show ?thesis by (simp only: Nil) simp
  next
    case (Cons y ys)
    then have "\<not> inCls Space y" by (metis hd_dropWhile list.sel(1) list.distinct(1))
    then have "\<not> inCls Space (hd ((y # ys) @ ?U))" by simp
    then show ?thesis by (simp only: Cons) simp
  qed
  have a3: "\<forall>u t. ?a = u @ t \<longrightarrow> rmatch ?r (t @ ?s) [] = None \<or> rmatch ?r (t @ ?s) [] = Some ?m"
  proof (intro allI impI)
    fix u t assume ut: "?a = u @ t"
    have "set t \<subseteq> set z" using ut by (metis set_takeWhileD subsetI Un_iff set_append)
    moreover have "set ?d \<subseteq> set z" by (meson set_dropWhileD subsetI)
    ultimately have "CHR ''>'' \<notin> set (t @ ?d)" using assms(1) by auto
    from none_part[OF this assms(2), of rest]
    show "rmatch ?r (t @ ?s) [] = None \<or> rmatch ?r (t @ ?s) [] = Some ?m" by simp
  qed
  from star_unique[OF a1 a2 a3]
  have "rmatch (Star Space False # ?r) (?a @ ?s) [] = None \<or> rmatch (Star Space False # ?r) (?a @ ?s) [] = Some ?m"
    by presburger
  moreover have "?a @ ?s = z @ ?U"
    by (simp only: append_assoc[symmetric] takeWhile_dropWhile_id)
  ultimately show ?thesis by (simp only:)
qed



lemma spaces_no_gt:
  assumes "\<forall>c\<in>set w. inCls Space c"
  shows "CHR ''>'' \<notin> set w"
proof
  assume "CHR ''>'' \<in> set w"
  with assms have "inCls Space CHR ''>''" by blast
  then show False by simp
qed



lemma display_part:
  assumes "CHR ''>'' \<notin> set t" and "\<not> occurs ''</div>'' k"
  shows "rmatch (lit ''display:'' @ Star Space False # lit ''none'' @ Star NotGt False # Chr CHR ''>'' # Lazy DotAll True # lit ''</div>'' @ [Star Space False])
      (t @ CHR ''>'' # k @ ''</div>'' @ rest) [] = None
    \<or> rmatch (lit ''display:'' @ Star Space False # lit ''none'' @ Star NotGt False # Chr CHR ''>'' # Lazy DotAll True # lit ''</div>'' @ [Star Space False])
      (t @ CHR ''>'' # k @ ''</div>'' @ rest) [] = Some (k, dropWhile (inCls Space) rest)"
proof (cases "hasPrefix (t @ CHR ''>'' # k @ ''</div>'' @ rest) ''display:''")
  case False
  then show ?thesis by (simp add: lit_match)
next
  case True
  from prefix_within[OF True] have "length ''display:'' \<le> length t" by simp
  then have d: "drop (length ''display:'') (t @ CHR ''>'' # k @ ''</div>'' @ rest)
       = drop (length ''display:'') t @ CHR ''>'' # k @ ''</div>'' @ rest" by simp
  have "CHR ''>'' \<notin> set (drop (length ''display:'') t)"
    using assms(1) by (meson in_set_dropD)
  note sp = space_part[OF this assms(2), of rest]
  have "rmatch (lit ''display:'' @ Star Space False # lit ''none'' @ Star NotGt False # Chr CHR ''>'' # Lazy DotAll True # lit ''</div>'' @ [Star Space False])
      (t @ CHR ''>'' # k @ ''</div>'' @ rest) []
     = rmatch (Star Space False # lit ''none'' @ Star NotGt False # Chr CHR ''>'' # Lazy DotAll True # lit ''</div>'' @ [Star Space False])
      (drop (length ''display:'') (t @ CHR ''>'' # k @ ''</div>'' @ rest)) []"
    using True by (simp only: lit_match if_True)
  with sp show ?thesis by (simp only: d)
qed


lemma display_here:
  assumes "\<forall>c\<in>set w. inCls Space c" and "CHR ''>'' \<notin> set a2" and "\<not> occurs ''</div>'' k"
  shows "rmatch (lit ''display:'' @ Star Space False # lit ''none'' @ Star NotGt False # Chr CHR ''>'' # Lazy DotAll True # lit ''</div>'' @ [Star Space False])
      ((''display:'' @ w @ ''none'' @ a2) @ CHR ''>'' # k @ ''</div>'' @ rest) []
     = Some (k, dropWhile (inCls Space) rest)"
proof -
  let ?U = "CHR ''>'' # k @ ''</div>'' @ rest"
  let ?s = "(''none'' @ a2) @ ?U"
  let ?r = "lit ''none'' @ Star NotGt False # Chr CHR ''>'' # Lazy DotAll True # lit ''</div>'' @ [Star Space False]"
  let ?m = "(k, dropWhile (inCls Space) rest)"
  have gtw: "CHR ''>'' \<notin> set w" by (rule spaces_no_gt[OF assms(1)])
  have a2': "?s = [] \<or> \<not> inCls Space (hd ?s)" by simp
  have a3: "\<forall>u t. w = u @ t \<longrightarrow> rmatch ?r (t @ ?s) [] = None \<or> rmatch ?r (t @ ?s) [] = Some ?m"
  proof (intro allI impI)
    fix u t assume ut: "w = u @ t"
    with gtw assms(2) have "CHR ''>'' \<notin> set (t @ ''none'' @ a2)" by auto
    from none_part[OF this assms(3), of rest]
    show "rmatch ?r (t @ ?s) [] = None \<or> rmatch ?r (t @ ?s) [] = Some ?m" by simp
  qed
  have "rmatch ?r ?s [] = rmatch (Star NotGt False # Chr CHR ''>'' # Lazy DotAll True # lit ''</div>'' @ [Star Space False]) (drop (length ''none'') ?s) []"
    by (simp only: lit_match) (simp add: hasPrefix_def)
  also have "drop (length ''none'') ?s = a2 @ ?U" by simp
  also have "rmatch (Star NotGt False # Chr CHR ''>'' # Lazy DotAll True # lit ''</div>'' @ [Star Space False]) (a2 @ ?U) [] = Some ?m"
    by (rule tag_end[OF assms(2,3)])
  finally have here: "rmatch ?r ?s [] = Some ?m" .
  then have "w = w @ [] \<and> rmatch ?r ([] @ ?s) [] = Some ?m" by (simp only: append_Nil append_Nil2)
  then have ex: "\<exists>u t. w = u @ t \<and> rmatch ?r (t @ ?s) [] = Some ?m" by blast
  have "rmatch (Star Space False # ?r) (w @ ?s) []
      = (if \<exists>u t. w = u @ t \<and> rmatch ?r (t @ ?s) [] = Some ?m then Some ?m else None)"
    by (rule star_unique[OF assms(1) a2' a3])
  also have "\<dots> = Some ?m" using ex by (rule if_P)
  finally have st: "rmatch (Star Space False # ?r) (w @ ?s) [] = Some ?m" .
  have "rmatch (lit ''display:'' @ Star Space False # ?r) ((''display:'' @ w @ ''none'' @ a2) @ ?U) []
      = rmatch (Star Space False # ?r) (drop (length ''display:'') ((''display:'' @ w @ ''none'' @ a2) @ ?U)) []"
    by (simp only: lit_match) (simp add: hasPrefix_def)
  also have "drop (length ''display:'') ((''display:'' @ w @ ''none'' @ a2) @ ?U) = w @ ?s" by simp
  finally show ?thesis using st by (simp only:)
qed


lemma block_match:
  assumes "\<forall>c\<in>set w. inCls Space c" and "CHR ''>'' \<notin> set a1" and "CHR ''>'' \<notin> set a2"
    and "\<not> occurs ''</div>'' k"
  shows "rmatch hiddenDivRe (''<div'' @ a1 @ ''display:'' @ w @ ''none'' @ a2 @ ''>'' @ k @ ''</div>'' @ rest) []
     = Some (k, dropWhile (inCls Space) rest)"
proof -
  let ?U = "CHR ''>'' # k @ ''</div>'' @ rest"
  let ?a = "a1 @ ''display:'' @ w @ ''none'' @ a2"
  let ?r = "lit ''display:'' @ Star Space False # lit ''none'' @ Star NotGt False # Chr CHR ''>'' # Lazy DotAll True # lit ''</div>'' @ [Star Space False]"
  let ?m = "(k, dropWhile (inCls Space) rest)"
  have gtw: "CHR ''>'' \<notin> set w" by (rule spaces_no_gt[OF assms(1)])
  have "CHR ''>'' \<notin> set ?a" using assms(2,3) gtw by simp
  then have b1: "\<forall>x\<in>set ?a. inCls NotGt x" by (metis inCls.simps(1))
  have b2: "?U = [] \<or> \<not> inCls NotGt (hd ?U)" by simp
  have b3: "\<forall>u t. ?a = u @ t \<longrightarrow> rmatch ?r (t @ ?U) [] = None \<or> rmatch ?r (t @ ?U) [] = Some ?m"
  proof (intro allI impI)
    fix u t assume ut: "?a = u @ t"
    have "CHR ''>'' \<notin> set (u @ t)" using \<open>CHR ''>'' \<notin> set ?a\<close> unfolding ut .
    then have "CHR ''>'' \<notin> set t" by simp
    from display_part[OF this assms(4), of rest]
    show "rmatch ?r (t @ ?U) [] = None \<or> rmatch ?r (t @ ?U) [] = Some ?m" .
  qed
  have "?a = a1 @ (''display:'' @ w @ ''none'' @ a2)
      \<and> rmatch ?r ((''display:'' @ w @ ''none'' @ a2) @ ?U) [] = Some ?m"
    using display_here[OF assms(1,3,4), of rest] by simp
  then have ex: "\<exists>u t. ?a = u @ t \<and> rmatch ?r (t @ ?U) [] = Some ?m" by blast
  from star_unique[OF b1 b2 b3] ex
  have "rmatch (Star NotGt False # ?r) (?a @ ?U) [] = Some ?m" by simp
  then show ?thesis by (simp add: hiddenDivRe_def lit_match hasPrefix_def)
qed

lemma replaceAllRe_no_match:
  "findSubmatch re s = None \<Longrightarrow> replaceAllRe re t s = s"
  by (induction s) (auto split: option.splits)

lemma findSubmatch_no_lt:
  "c \<notin> set s \<Longrightarrow> findSubmatch (Chr c # r) s = None"
  by (induction s) auto

lemma alreadyClean_no_lt: "CHR ''<'' \<notin> set s \<Longrightarrow> alreadyClean s"
  by (simp add: alreadyClean_def h1Re_def h2Re_def h3Re_def spanRe_def brRe_def kbdRe_def supRe_def strongRe_def divRe_def lit_def findSubmatch_no_lt)

lemma convertMarkup_clean: "alreadyClean s \<Longrightarrow> convertMarkup s = s"
  by (simp add: alreadyClean_def convertMarkup_def replaceAllRe_no_match)

lemma hiddenDivRe_lit:
  "hiddenDivRe = lit ''<div'' @ ([Star NotGt False] @ lit ''display:'' @ [Star Space False]
                 @ lit ''none'' @ [Star NotGt False, Chr CHR ''>'', Lazy DotAll True]
                 @ lit ''</div>'' @ [Star Space False])"
  by (simp add: hiddenDivRe_def)

lemma hiddenDivRe_needs_div: "\<not> hasPrefix s ''<div'' \<Longrightarrow> rmatch hiddenDivRe s cap = None"
  by (simp only: hiddenDivRe_lit lit_match if_False)

lemma hidden_skip:
  assumes "\<not> occurs ''<div'' g" and "s = [] \<or> hd s = CHR ''<''"
  shows "findAllRe hiddenDivRe (g @ s) = findAllRe hiddenDivRe s"
    and "replaceAllRe hiddenDivRe t (g @ s) = g @ replaceAllRe hiddenDivRe t s"
  using assms(1)
proof (induction g)
  case Nil
  {
    case 1
    show ?case by simp
  next
    case 2
    show ?case by simp
  }
next
  case (Cons x g)
  {
    case 1
    then have ng: "\<not> occurs ''<div'' g" and nx: "\<not> hasPrefix (x # g) ''<div''" by simp_all
    from nx no_straddle_open[OF _ assms(2), of x g] have "\<not> hasPrefix ((x # g) @ s) ''<div''" by blast
    from hiddenDivRe_needs_div[OF this] have "rmatch hiddenDivRe (x # g @ s) [] = None" by simp
    then have "findAllRe hiddenDivRe ((x # g) @ s) = findAllRe hiddenDivRe (g @ s)" by simp
    with Cons.IH(1)[OF ng] show ?case by simp
  next
    case 2
    then have ng: "\<not> occurs ''<div'' g" and nx: "\<not> hasPrefix (x # g) ''<div''" by simp_all
    from nx no_straddle_open[OF _ assms(2), of x g] have "\<not> hasPrefix ((x # g) @ s) ''<div''" by blast
    from hiddenDivRe_needs_div[OF this] have "rmatch hiddenDivRe (x # g @ s) [] = None" by simp
    then have "replaceAllRe hiddenDivRe t ((x # g) @ s) = x # replaceAllRe hiddenDivRe t (g @ s)" by simp
    with Cons.IH(2)[OF ng] show ?case by simp
  }
qed

lemma block_found:
  assumes "wellFormedBlock b"
  shows "rmatch hiddenDivRe (blockText b @ rest) [] = Some (inner b, dropWhile (inCls Space) rest)"
  using block_match[of "spaces b" "attrs1 b" "attrs2 b" "inner b" rest] assms
  by (simp add: wellFormedBlock_def blockText_def list_all_iff)

lemma findAllRe_hit:
  "rmatch re (x # xs) [] = Some (cap, rest) \<Longrightarrow> length rest \<le> length xs \<Longrightarrow>
   findAllRe re (x # xs) = cap # findAllRe re rest"
  by simp

lemma replaceAllRe_hit:
  "rmatch re (x # xs) [] = Some (cap, rest) \<Longrightarrow> length rest \<le> length xs \<Longrightarrow>
   replaceAllRe re t (x # xs) = expand t cap @ replaceAllRe re t rest"
  by simp

lemma block_shape:
  obtains xs where "blockText b @ rest = CHR ''<'' # xs" and "length rest \<le> length xs"
proof
  show "blockText b @ rest = CHR ''<'' # (tl (blockText b) @ rest)"
    by (simp add: blockText_def)
  show "length rest \<le> length (tl (blockText b) @ rest)" by simp
qed

lemma findAllRe_block:
  assumes "wellFormedBlock b"
  shows "findAllRe hiddenDivRe (blockText b @ rest) = inner b # findAllRe hiddenDivRe (dropWhile (inCls Space) rest)"
proof -
  obtain xs where xs: "blockText b @ rest = CHR ''<'' # xs" "length rest \<le> length xs"
    by (rule block_shape)
  have l: "length (dropWhile (inCls Space) rest) \<le> length xs"
    using xs(2) length_dropWhile_le[of "inCls Space" rest] by linarith
  from block_found[OF assms, of rest]
  have "rmatch hiddenDivRe (CHR ''<'' # xs) [] = Some (inner b, dropWhile (inCls Space) rest)"
    by (simp only: xs(1))
  from findAllRe_hit[OF this l] show ?thesis by (simp only: xs(1))
qed

lemma replaceAllRe_block:
  assumes "wellFormedBlock b"
  shows "replaceAllRe hiddenDivRe (Plain []) (blockText b @ rest)
     = replaceAllRe hiddenDivRe (Plain []) (dropWhile (inCls Space) rest)"
proof -
  obtain xs where xs: "blockText b @ rest = CHR ''<'' # xs" "length rest \<le> length xs"
    by (rule block_shape)
  have l: "length (dropWhile (inCls Space) rest) \<le> length xs"
    using xs(2) length_dropWhile_le[of "inCls Space" rest] by linarith
  from block_found[OF assms, of rest]
  have "rmatch hiddenDivRe (CHR ''<'' # xs) [] = Some (inner b, dropWhile (inCls Space) rest)"
    by (simp only: xs(1))
  from replaceAllRe_hit[OF this l, of "Plain []"] show ?thesis by (simp add: xs(1))
qed

lemma dropWhile_document:
  "dropWhile (inCls Space) (document g bs) = document (dropWhile (inCls Space) g) bs"
proof (cases bs)
  case Nil
  then show ?thesis by simp
next
  case (Cons b bs')
  have "dropWhile (inCls Space) (g @ CHR ''<'' # u) = dropWhile (inCls Space) g @ CHR ''<'' # u" for u
    by (induction g) auto
  then show ?thesis by (simp add: Cons blockText_def)
qed

lemma document_scan:
  assumes "\<not> occurs ''<div'' g" and "list_all wellFormedBlock bs"
  shows "findAllRe hiddenDivRe (document g bs) = map inner bs"
    and "replaceAllRe hiddenDivRe (Plain []) (document g bs)
           = g @ concat (map followingTrimmed bs)"
  using assms
proof (induction bs arbitrary: g)
  case Nil
  {
    case 1
    then show ?case using hidden_skip(1)[of g "[]"] by simp
  next
    case 2
    then show ?case using hidden_skip(2)[of g "[]" "Plain []"] by simp
  }
next
  case (Cons b bs)
  {
    case 1
    then have wf: "wellFormedBlock b" and wfs: "list_all wellFormedBlock bs" by simp_all
    from wf have g': "\<not> occurs ''<div'' (dropWhile (inCls Space) (following b))"
      by (simp add: wellFormedBlock_def occurs_dropWhile)
    have hd: "blockText b @ document (following b) bs = []
        \<or> hd (blockText b @ document (following b) bs) = CHR ''<''"
      by (simp add: blockText_def)
    have "findAllRe hiddenDivRe (document g (b # bs)) = findAllRe hiddenDivRe (blockText b @ document (following b) bs)"
      using hidden_skip(1)[OF 1(1) hd] by simp
    also have "\<dots> = inner b # findAllRe hiddenDivRe (document (dropWhile (inCls Space) (following b)) bs)"
      by (simp only: findAllRe_block[OF wf] dropWhile_document)
    also have "\<dots> = inner b # map inner bs"
      using Cons.IH(1)[OF g' wfs] by simp
    finally show ?case by simp
  next
    case 2
    then have wf: "wellFormedBlock b" and wfs: "list_all wellFormedBlock bs" by simp_all
    from wf have g': "\<not> occurs ''<div'' (dropWhile (inCls Space) (following b))"
      by (simp add: wellFormedBlock_def occurs_dropWhile)
    have hd: "blockText b @ document (following b) bs = []
        \<or> hd (blockText b @ document (following b) bs) = CHR ''<''"
      by (simp add: blockText_def)
    have "replaceAllRe hiddenDivRe (Plain []) (document g (b # bs))
        = g @ replaceAllRe hiddenDivRe (Plain []) (blockText b @ document (following b) bs)"
      using hidden_skip(2)[OF 2(1) hd, of "Plain []"] by simp
    also have "\<dots> = g @ replaceAllRe hiddenDivRe (Plain []) (document (dropWhile (inCls Space) (following b)) bs)"
      by (simp only: replaceAllRe_block[OF wf] dropWhile_document)
    also have "\<dots> = g @ dropWhile (inCls Space) (following b) @ concat (map followingTrimmed bs)"
      by (simp only: Cons.IH(2)[OF g' wfs])
    finally show ?case by (simp add: followingTrimmed_def[symmetric])
  }
qed

text \<open>
  C4, as stated: one application turns \<open><sup><sup>x</sup></sup>\<close> into \<open><sup>x</sup>\<close>
  (the lazy pattern stops at the first closing tag), and a second application turns
  that into \<open>x\<close>.
\<close>

theorem convertMarkup_not_idempotent:
  "convertMarkup (convertMarkup ''<sup><sup>x</sup></sup>'') \<noteq> convertMarkup ''<sup><sup>x</sup></sup>''"
  by code_simp

text \<open>
  C4, amended: the conversion steps leave a text unchanged when none of their patterns
  matches in it, which is the case for every text without \<open><\<close>. So applying them
  twice to a document gives the same as applying them once whenever the first result
  is such a text.
\<close>

theorem convertMarkup_idempotent_on_clean:
  "(alreadyClean s \<longrightarrow> convertMarkup s = s)
   \<and> (alreadyClean (convertMarkup s) \<longrightarrow> convertMarkup (convertMarkup s) = convertMarkup s)
   \<and> (CHR ''<'' \<notin> set s \<longrightarrow> alreadyClean s)"
  using convertMarkup_clean[of s] convertMarkup_clean[of "convertMarkup s"] alreadyClean_no_lt[of s]
  by blast

text \<open>
  C4, witness: a document with a line break, a keyboard element and a strong element;
  its converted text has no \<open><\<close>, and converting again changes nothing.
\<close>

theorem convertMarkup_idempotent_on_clean_witness:
  "convertMarkup ''a<br>b <kbd>k</kbd> <strong>c</strong>'' = ''a'' @ [CHR 0x0A] @ ''b `k` **c**''
   \<and> alreadyClean (convertMarkup ''a<br>b <kbd>k</kbd> <strong>c</strong>'')
   \<and> convertMarkup (convertMarkup ''a<br>b <kbd>k</kbd> <strong>c</strong>'')
       = convertMarkup ''a<br>b <kbd>k</kbd> <strong>c</strong>''"
proof -
  have c: "convertMarkup ''a<br>b <kbd>k</kbd> <strong>c</strong>'' = ''a'' @ [CHR 0x0A] @ ''b `k` **c**''"
    by code_simp
  have "CHR ''<'' \<notin> set (convertMarkup ''a<br>b <kbd>k</kbd> <strong>c</strong>'')"
    by (simp only: c) simp
  with convertMarkup_idempotent_on_clean[of "convertMarkup ''a<br>b <kbd>k</kbd> <strong>c</strong>''"]
    convertMarkup_idempotent_on_clean[of "''a<br>b <kbd>k</kbd> <strong>c</strong>''"] c
  show ?thesis by blast
qed

section \<open>Hidden blocks: properties\<close>

lemma scanOpen_append:
  "scanOpen p (a @ b) = (case scanOpen p a of None \<Rightarrow> None | Some q \<Rightarrow> scanOpen q b)"
  by (induction a arbitrary: p) auto

lemma scanOpen_plain:
  "CHR ''<'' \<notin> set a \<Longrightarrow> scanOpen [] a = Some []"
  by (induction a) auto

lemma scanOpen_tag:
  assumes "scanOpen p (CHR ''<'' # t @ CHR ''>'' # rest) = Some p'"
  shows "p = []" and "scanOpen [] rest = Some p'"
proof -
  from assms show p: "p = []" by (cases "p = []") simp_all
  with assms have "scanOpen ''<'' (t @ CHR ''>'' # rest) = Some p'" by simp
  then show "scanOpen [] rest = Some p'"
    by (cases "scanOpen ''<'' t") (simp_all add: scanOpen_append)
qed

lemma occurs_drop: "\<not> occurs sub s \<Longrightarrow> \<not> occurs sub (drop n s)"
  using occurs_append_right[of sub "drop n s" "take n s"] by auto

lemma tagsApart_stripFrontMatter: "tagsApart raw \<Longrightarrow> tagsApart (stripFrontMatter raw)"
  by (simp add: stripFrontMatter_def tagsApart_def occurs_drop occurs_dropWhile split: option.splits)

lemma apart_scan:
  "p \<in> {[], ''<'', ''<d'', ''<di''} \<Longrightarrow> tagsApart (p @ s) \<Longrightarrow> \<exists>p'. scanOpen p s = Some p'"
proof (induction s arbitrary: p)
  case Nil
  then show ?case by simp
next
  case (Cons c cs)
  show ?case
  proof (cases "c = CHR ''<''")
    case True
    show ?thesis
    proof (cases "p = []")
      case p: True
      from Cons.prems(2) p True have "tagsApart (''<'' @ cs)" by simp
      from Cons.IH[OF _ this] obtain p' where "scanOpen ''<'' cs = Some p'" by auto
      with p True show ?thesis by simp
    next
      case False
      with Cons.prems(1) have "p = ''<'' \<or> p = ''<d'' \<or> p = ''<di''" by auto
      with True have "hasPrefix (p @ c # cs) ''<<'' \<or> hasPrefix (p @ c # cs) ''<d<'' \<or> hasPrefix (p @ c # cs) ''<di<''"
        by (auto simp: hasPrefix_def)
      moreover have "p @ c # cs = hd p # (tl p @ c # cs)" using False by simp
      ultimately have "occurs ''<<'' (p @ c # cs) \<or> occurs ''<d<'' (p @ c # cs) \<or> occurs ''<di<'' (p @ c # cs)"
        by (metis occurs.simps(2))
      with Cons.prems(2) show ?thesis by (simp add: tagsApart_def)
    qed
  next
    case nl: False
    show ?thesis
    proof (cases "(p = ''<'' \<and> c = CHR ''d'') \<or> (p = ''<d'' \<and> c = CHR ''i'')")
      case True
      then have pin: "p @ [c] \<in> {[], ''<'', ''<d'', ''<di''}" by auto
      from Cons.prems(2) have "tagsApart ((p @ [c]) @ cs)" by simp
      from Cons.IH[OF pin this] obtain p' where "scanOpen (p @ [c]) cs = Some p'" by blast
      with True show ?thesis by auto
    next
      case False
      from Cons.prems(2) occurs_append_right[of _ cs "p @ [c]"] have "tagsApart ([] @ cs)"
        by (auto simp: tagsApart_def)
      from Cons.IH[OF _ this] obtain p' where "scanOpen [] cs = Some p'" by auto
      with False nl show ?thesis by auto
    qed
  qed
qed

text \<open>The backtracking search only finds what the pattern accepts.\<close>

lemma accepts_ConsI:
  "itemWords i w1 c1 \<Longrightarrow> accepts r w2 c2 \<Longrightarrow> accepts (i # r) (w1 @ w2) (c1 @ c2)"
  by auto

lemma accepts_skip:
  "itemWords i [] [] \<Longrightarrow> accepts r w c \<Longrightarrow> accepts (i # r) w c"
  using accepts_ConsI[of i "[]" "[]" r w c] by simp

lemma accepts_more:
  assumes "accepts (i # r) w c" and "i = Star k g \<or> i = Lazy k g" and "inCls k x"
  shows "accepts (i # r) (x # w) ((if g then [x] else []) @ c)"
proof -
  from assms(1) obtain w1 w2 c1 c2 where d: "w = w1 @ w2" "c = c1 @ c2" "itemWords i w1 c1" "accepts r w2 c2"
    by auto
  from d(3) assms(2,3) have "itemWords i (x # w1) ((if g then [x] else []) @ c1)" by auto
  from accepts_ConsI[OF this d(4)] d(1,2) show ?thesis by simp
qed

lemma orElse_Some: "orElse a b = Some m \<longleftrightarrow> a = Some m \<or> (a = None \<and> b = Some m)"
  by (cases a) auto

lemma rmatch_accepts:
  "rmatch re s cap = Some (cap', rest) \<Longrightarrow> \<exists>w c. s = w @ rest \<and> cap' = cap @ c \<and> accepts re w c"
proof (induction re s cap arbitrary: cap' rest rule: rmatch.induct)
  case (1 s cap)
  then show ?case by simp
next
  case (2 c r cap)
  then show ?case by simp
next
  case (3 c r x xs cap)
  then have xc: "x = c" and m: "rmatch r xs cap = Some (cap', rest)" by (auto split: if_splits)
  from 3(1)[OF xc m] obtain w c' where "xs = w @ rest" "cap' = cap @ c'" "accepts r w c'" by blast
  moreover then have "accepts (Chr c # r) ([c] @ w) ([] @ c')" by (intro accepts_ConsI) simp_all
  ultimately have "x # xs = (c # w) @ rest \<and> cap' = cap @ c' \<and> accepts (Chr c # r) (c # w) c'"
    using xc by simp
  then show ?case by blast
next
  case (4 c r cap)
  then have "rmatch r [] cap = Some (cap', rest)" by simp
  from 4(1)[OF this] obtain w c' where d: "[] = w @ rest" "cap' = cap @ c'" "accepts r w c'" by blast
  then have "accepts (Opt c # r) w c'" by (intro accepts_skip) simp_all
  with d show ?case by blast
next
  case (5 c r x xs cap)
  show ?case
  proof (cases "x = c \<and> rmatch r xs cap \<noteq> None")
    case True
    with 5(3) have m: "rmatch r xs cap = Some (cap', rest)" by (auto simp: orElse_Some)
    from True have xc: "x = c" by simp
    from 5(1)[OF xc m] obtain w c' where "xs = w @ rest" "cap' = cap @ c'" "accepts r w c'" by blast
    moreover then have "accepts (Opt c # r) ([c] @ w) ([] @ c')" by (intro accepts_ConsI) simp_all
    ultimately have "x # xs = (c # w) @ rest \<and> cap' = cap @ c' \<and> accepts (Opt c # r) (c # w) c'"
      using xc by simp
    then show ?thesis by blast
  next
    case False
    with 5(3) have m: "rmatch r (x # xs) cap = Some (cap', rest)"
      by (auto simp: orElse_Some split: if_splits)
    from 5(2)[OF m] obtain w c' where d: "x # xs = w @ rest" "cap' = cap @ c'" "accepts r w c'" by blast
    then have "accepts (Opt c # r) w c'" by (intro accepts_skip) simp_all
    with d show ?thesis by blast
  qed
next
  case (6 k g r cap)
  then show ?case by simp
next
  case (7 k g r x xs cap)
  then have ix: "inCls k x" and m: "rmatch r xs (grab g cap x) = Some (cap', rest)"
    by (auto split: if_splits)
  from 7(1)[OF ix m] obtain w c' where d: "xs = w @ rest" "cap' = grab g cap x @ c'" "accepts r w c'"
    by blast
  have "itemWords (One k g) [x] (if g then [x] else [])" using ix by simp
  from accepts_ConsI[OF this d(3)] d(1,2)
  have "x # xs = (x # w) @ rest \<and> cap' = cap @ ((if g then [x] else []) @ c')
      \<and> accepts (One k g # r) (x # w) ((if g then [x] else []) @ c')"
    by (simp add: grab_def)
  then show ?case by blast
next
  case (8 k g r cap)
  then have "rmatch r [] cap = Some (cap', rest)" by simp
  from 8(1)[OF this] obtain w c' where d: "[] = w @ rest" "cap' = cap @ c'" "accepts r w c'" by blast
  then have "accepts (Star k g # r) w c'" by (intro accepts_skip) simp_all
  with d show ?case by blast
next
  case (9 k g r x xs cap)
  show ?case
  proof (cases "inCls k x \<and> rmatch (Star k g # r) xs (grab g cap x) \<noteq> None")
    case True
    with 9(3) have m: "rmatch (Star k g # r) xs (grab g cap x) = Some (cap', rest)"
      by (auto simp: orElse_Some)
    from True have ix: "inCls k x" by simp
    from 9(1)[OF ix m] obtain w c' where d: "xs = w @ rest" "cap' = grab g cap x @ c'"
      "accepts (Star k g # r) w c'"
      by blast
    from accepts_more[OF d(3) _ ix] d(1,2)
    have "x # xs = (x # w) @ rest \<and> cap' = cap @ ((if g then [x] else []) @ c')
        \<and> accepts (Star k g # r) (x # w) ((if g then [x] else []) @ c')"
      by (simp add: grab_def)
    then show ?thesis by blast
  next
    case False
    with 9(3) have m: "rmatch r (x # xs) cap = Some (cap', rest)"
      by (auto simp: orElse_Some split: if_splits)
    from 9(2)[OF m] obtain w c' where d: "x # xs = w @ rest" "cap' = cap @ c'" "accepts r w c'" by blast
    then have "accepts (Star k g # r) w c'" by (intro accepts_skip) simp_all
    with d show ?thesis by blast
  qed
next
  case (10 k g r cap)
  then have "rmatch r [] cap = Some (cap', rest)" by simp
  from 10(1)[OF this] obtain w c' where d: "[] = w @ rest" "cap' = cap @ c'" "accepts r w c'" by blast
  then have "accepts (Lazy k g # r) w c'" by (intro accepts_skip) simp_all
  with d show ?case by blast
next
  case (11 k g r x xs cap)
  show ?case
  proof (cases "rmatch r (x # xs) cap")
    case (Some m')
    with 11(3) have m: "rmatch r (x # xs) cap = Some (cap', rest)" by simp
    from 11(1)[OF m] obtain w c' where d: "x # xs = w @ rest" "cap' = cap @ c'" "accepts r w c'" by blast
    then have "accepts (Lazy k g # r) w c'" by (intro accepts_skip) simp_all
    with d show ?thesis by blast
  next
    case None
    with 11(3) have ix: "inCls k x" and m: "rmatch (Lazy k g # r) xs (grab g cap x) = Some (cap', rest)"
      by (auto simp: orElse_Some split: if_splits)
    from 11(2)[OF ix m] obtain w c' where d: "xs = w @ rest" "cap' = grab g cap x @ c'"
      "accepts (Lazy k g # r) w c'"
      by blast
    from accepts_more[OF d(3) _ ix] d(1,2)
    have "x # xs = (x # w) @ rest \<and> cap' = cap @ ((if g then [x] else []) @ c')
        \<and> accepts (Lazy k g # r) (x # w) ((if g then [x] else []) @ c')"
      by (simp add: grab_def)
    then show ?thesis by blast
  qed
next
  case (12 r cap)
  then have "rmatch r [] cap = Some (cap', rest)" by simp
  from 12(1)[OF this] obtain w c' where d: "[] = w @ rest" "cap' = cap @ c'" "accepts r w c'" by blast
  then have "accepts (Eol # r) w c'" by (intro accepts_skip) simp_all
  with d show ?case by blast
next
  case (13 r x xs cap)
  then have m: "rmatch r (x # xs) cap = Some (cap', rest)" and xn: "x = CHR 0x0A"
    by (auto split: if_splits)
  from 13(1)[OF xn m] obtain w c' where d: "x # xs = w @ rest" "cap' = cap @ c'" "accepts r w c'" by blast
  then have "accepts (Eol # r) w c'" by (intro accepts_skip) simp_all
  with d show ?case by blast
qed

lemma accepts_Chr: "accepts (Chr x # r) w c \<longleftrightarrow> (\<exists>w'. w = x # w' \<and> accepts r w' c)"
  by auto

lemma accepts_lit: "accepts (lit l @ r) w c \<longleftrightarrow> (\<exists>w'. w = l @ w' \<and> accepts r w' c)"
proof (induction l arbitrary: w)
  case Nil
  then show ?case by (simp add: lit_def)
next
  case (Cons a l)
  have "accepts (lit (a # l) @ r) w c \<longleftrightarrow> (\<exists>w1. w = a # w1 \<and> accepts (lit l @ r) w1 c)"
    unfolding lit_def by (simp only: list.map append_Cons accepts_Chr)
  also have "\<dots> \<longleftrightarrow> (\<exists>w'. w = (a # l) @ w' \<and> accepts r w' c)"
    by (auto simp: Cons.IH)
  finally show ?case .
qed

lemma accepts_Opt:
  "accepts (Opt x # r) w c \<Longrightarrow> accepts r w c \<or> (\<exists>w'. w = x # w' \<and> accepts r w' c)"
  by auto

lemma accepts_Star:
  "accepts (Star k False # r) w c \<Longrightarrow> \<exists>u w'. w = u @ w' \<and> list_all (inCls k) u \<and> accepts r w' c"
  by auto

lemma accepts_Lazy:
  "accepts (Lazy k True # r) w c \<Longrightarrow>
   \<exists>u w' c'. w = u @ w' \<and> c = u @ c' \<and> list_all (inCls k) u \<and> accepts r w' c'"
  by auto

lemma open_close_shape:
  assumes "accepts (lit (CHR ''<'' # L) @ [Star NotGt False, Chr CHR ''>'', Lazy k True] @ lit (CHR ''<'' # R)) w c"
  shows "\<exists>t. w = CHR ''<'' # t @ CHR ''>'' # c @ CHR ''<'' # R"
proof -
  from assms obtain w1 where w1: "w = (CHR ''<'' # L) @ w1"
    and a1: "accepts ([Star NotGt False, Chr CHR ''>'', Lazy k True] @ lit (CHR ''<'' # R)) w1 c"
    by (auto simp only: accepts_lit)
  from a1 have "accepts (Star NotGt False # Chr CHR ''>'' # Lazy k True # lit (CHR ''<'' # R)) w1 c" by simp
  from accepts_Star[OF this] obtain u w2 where w2: "w1 = u @ w2"
    and a2: "accepts (Chr CHR ''>'' # Lazy k True # lit (CHR ''<'' # R)) w2 c"
    by blast
  from a2 obtain w3 where w3: "w2 = CHR ''>'' # w3" and a3: "accepts (Lazy k True # lit (CHR ''<'' # R)) w3 c"
    by (auto simp only: accepts_Chr)
  from accepts_Lazy[OF a3] obtain v w4 c' where w4: "w3 = v @ w4" "c = v @ c'"
    and a4: "accepts (lit (CHR ''<'' # R)) w4 c'"
    by blast
  from a4 have "accepts (lit (CHR ''<'' # R) @ []) w4 c'" by simp
  then have "w4 = CHR ''<'' # R \<and> c' = []" by (simp only: accepts_lit) auto
  with w1 w2 w3 w4 have "w = CHR ''<'' # (L @ u) @ CHR ''>'' # c @ CHR ''<'' # R" by simp
  then show ?thesis by blast
qed

lemma plain_pair_shape:
  assumes "accepts (lit (CHR ''<'' # L) @ [Chr CHR ''>'', Lazy k True] @ lit (CHR ''<'' # R)) w c"
  shows "w = CHR ''<'' # L @ CHR ''>'' # c @ CHR ''<'' # R"
proof -
  from assms obtain w1 where w1: "w = (CHR ''<'' # L) @ w1"
    and a1: "accepts ([Chr CHR ''>'', Lazy k True] @ lit (CHR ''<'' # R)) w1 c"
    by (auto simp only: accepts_lit)
  from a1 have "accepts (Chr CHR ''>'' # Lazy k True # lit (CHR ''<'' # R)) w1 c" by simp
  then obtain w3 where w3: "w1 = CHR ''>'' # w3" and a3: "accepts (Lazy k True # lit (CHR ''<'' # R)) w3 c"
    by (auto simp only: accepts_Chr)
  from accepts_Lazy[OF a3] obtain v w4 c' where w4: "w3 = v @ w4" "c = v @ c'"
    and a4: "accepts (lit (CHR ''<'' # R)) w4 c'"
    by blast
  from a4 have "accepts (lit (CHR ''<'' # R) @ []) w4 c'" by simp
  then have "w4 = CHR ''<'' # R \<and> c' = []" by (simp only: accepts_lit) auto
  with w1 w3 w4 show ?thesis by simp
qed

lemma tag_shape:
  assumes "accepts ([Chr CHR ''<'', Opt CHR ''/''] @ lit L @ [Star NotGt False, Chr CHR ''>'']) w c"
  shows "c = [] \<and> (\<exists>t. w = CHR ''<'' # t @ [CHR ''>''])"
proof -
  from assms have "accepts (Chr CHR ''<'' # Opt CHR ''/'' # (lit L @ [Star NotGt False, Chr CHR ''>''])) w c"
    by simp
  then obtain w1 where w1: "w = CHR ''<'' # w1"
    and a1: "accepts (Opt CHR ''/'' # (lit L @ [Star NotGt False, Chr CHR ''>''])) w1 c"
    by (auto simp only: accepts_Chr)
  from accepts_Opt[OF a1] obtain p w2 where w2: "w1 = p @ w2"
    and a2: "accepts (lit L @ [Star NotGt False, Chr CHR ''>'']) w2 c"
    by (metis append_Cons append_Nil)
  from a2 obtain w3 where w3: "w2 = L @ w3" and a3: "accepts (Star NotGt False # [Chr CHR ''>'']) w3 c"
    by (auto simp only: accepts_lit)
  from accepts_Star[OF a3] obtain u w4 where w4: "w3 = u @ w4" and a4: "accepts [Chr CHR ''>''] w4 c"
    by blast
  from a4 have "w4 = [CHR ''>''] \<and> c = []" by auto
  with w1 w2 w3 w4 have "c = [] \<and> w = CHR ''<'' # (p @ L @ u) @ [CHR ''>'']" by simp
  then show ?thesis by blast
qed

lemma br_shape:
  assumes "accepts brRe w c"
  shows "c = [] \<and> (\<exists>t. w = CHR ''<'' # t @ [CHR ''>''])"
proof -
  from assms have "accepts (lit ''<br'' @ [Star Space False, Opt CHR ''/'', Chr CHR ''>'']) w c"
    by (simp only: brRe_def)
  then obtain w1 where w1: "w = ''<br'' @ w1"
    and a1: "accepts (Star Space False # [Opt CHR ''/'', Chr CHR ''>'']) w1 c"
    by (auto simp only: accepts_lit)
  from accepts_Star[OF a1] obtain u w2 where w2: "w1 = u @ w2"
    and a2: "accepts (Opt CHR ''/'' # [Chr CHR ''>'']) w2 c"
    by blast
  from accepts_Opt[OF a2] obtain p w3 where w3: "w2 = p @ w3" and a3: "accepts [Chr CHR ''>''] w3 c"
    by (metis append_Cons append_Nil)
  from a3 have "w3 = [CHR ''>''] \<and> c = []" by auto
  with w1 w2 w3 have "c = [] \<and> w = CHR ''<'' # (''br'' @ u @ p) @ [CHR ''>'']" by simp
  then show ?thesis by blast
qed

lemma hidden_shape:
  assumes "accepts hiddenDivRe w c"
  shows "\<exists>t ws. w = CHR ''<'' # t @ CHR ''>'' # c @ ''</div>'' @ ws \<and> list_all (inCls Space) ws"
proof -
  from assms obtain w1 where w1: "w = ''<div'' @ w1"
    and a1: "accepts (Star NotGt False # (lit ''display:'' @ [Star Space False]
                 @ lit ''none'' @ [Star NotGt False, Chr CHR ''>'', Lazy DotAll True]
                 @ lit ''</div>'' @ [Star Space False])) w1 c"
    unfolding hiddenDivRe_lit by (auto simp only: accepts_lit append_Cons append_Nil)
  from accepts_Star[OF a1] obtain u1 w2 where w2: "w1 = u1 @ w2"
    and a2: "accepts (lit ''display:'' @ ([Star Space False]
                 @ lit ''none'' @ [Star NotGt False, Chr CHR ''>'', Lazy DotAll True]
                 @ lit ''</div>'' @ [Star Space False])) w2 c"
    by auto
  from a2 obtain w3 where w3: "w2 = ''display:'' @ w3"
    and a3: "accepts (Star Space False # (lit ''none'' @ [Star NotGt False, Chr CHR ''>'', Lazy DotAll True]
                 @ lit ''</div>'' @ [Star Space False])) w3 c"
    by (auto simp only: accepts_lit append_Cons append_Nil)
  from accepts_Star[OF a3] obtain u2 w4 where w4: "w3 = u2 @ w4"
    and a4: "accepts (lit ''none'' @ ([Star NotGt False, Chr CHR ''>'', Lazy DotAll True]
                 @ lit ''</div>'' @ [Star Space False])) w4 c"
    by auto
  from a4 obtain w5 where w5: "w4 = ''none'' @ w5"
    and a5: "accepts (Star NotGt False # (Chr CHR ''>'' # Lazy DotAll True # (lit ''</div>'' @ [Star Space False]))) w5 c"
    by (auto simp only: accepts_lit append_Cons append_Nil)
  from accepts_Star[OF a5] obtain u3 w6 where w6: "w5 = u3 @ w6"
    and a6: "accepts (Chr CHR ''>'' # Lazy DotAll True # (lit ''</div>'' @ [Star Space False])) w6 c"
    by blast
  from a6 obtain w7 where w7: "w6 = CHR ''>'' # w7"
    and a7: "accepts (Lazy DotAll True # (lit ''</div>'' @ [Star Space False])) w7 c"
    by (auto simp only: accepts_Chr)
  from accepts_Lazy[OF a7] obtain v w8 c' where w8: "w7 = v @ w8" "c = v @ c'"
    and a8: "accepts (lit ''</div>'' @ [Star Space False]) w8 c'"
    by blast
  from a8 obtain w9 where w9: "w8 = ''</div>'' @ w9" and a9: "accepts [Star Space False] w9 c'"
    by (auto simp only: accepts_lit)
  from a9 have sp: "list_all (inCls Space) w9" and c': "c' = []" by auto
  from w1 w2 w3 w4 w5 w6 w7 w8 w9 c'
  have "w = CHR ''<'' # (''div'' @ u1 @ ''display:'' @ u2 @ ''none'' @ u3) @ CHR ''>'' # c @ ''</div>'' @ w9"
    by simp
  with sp show ?thesis by blast
qed

lemma pair_good:
  assumes "w = CHR ''<'' # t @ CHR ''>'' # c @ CHR ''<'' # t' @ CHR ''>'' # ws"
    and "CHR ''<'' \<notin> set ws" and "CHR ''<'' \<notin> set pre" and "CHR ''<'' \<notin> set suf"
    and "scanOpen p (w @ rest) = Some p'"
  shows "p = [] \<and> scanOpen [] (pre @ c @ suf) = Some [] \<and> scanOpen [] rest = Some p'"
proof -
  have "w @ rest = CHR ''<'' # t @ CHR ''>'' # (c @ CHR ''<'' # t' @ CHR ''>'' # (ws @ rest))"
    by (simp add: assms(1))
  with assms(5) have s1: "scanOpen p (CHR ''<'' # t @ CHR ''>'' # (c @ CHR ''<'' # t' @ CHR ''>'' # (ws @ rest))) = Some p'"
    by simp
  from scanOpen_tag[OF s1] have p: "p = []"
    and s2: "scanOpen [] (c @ CHR ''<'' # t' @ CHR ''>'' # (ws @ rest)) = Some p'"
    by simp_all
  from s2 obtain q where q: "scanOpen [] c = Some q"
    and s3: "scanOpen q (CHR ''<'' # t' @ CHR ''>'' # (ws @ rest)) = Some p'"
    by (cases "scanOpen [] c") (simp_all add: scanOpen_append)
  from scanOpen_tag[OF s3] have qe: "q = []" and s4: "scanOpen [] (ws @ rest) = Some p'"
    by simp_all
  from s4 have r: "scanOpen [] rest = Some p'"
    by (simp add: scanOpen_append scanOpen_plain[OF assms(2)])
  have "scanOpen [] (pre @ c @ suf) = Some []"
    by (simp add: scanOpen_append scanOpen_plain[OF assms(3)] scanOpen_plain[OF assms(4)] q qe)
  with p r show ?thesis by simp
qed

lemma tag_good:
  assumes "w = CHR ''<'' # t @ [CHR ''>'']" and "scanOpen p (w @ rest) = Some p'"
  shows "p = [] \<and> scanOpen [] rest = Some p'"
proof -
  from assms have "scanOpen p (CHR ''<'' # t @ CHR ''>'' # rest) = Some p'" by simp
  from scanOpen_tag[OF this] show ?thesis by simp
qed

lemma replaceAllRe_apart:
  "(\<forall>w c p rest p'. accepts re w c \<and> scanOpen p (w @ rest) = Some p' \<longrightarrow>
      p = [] \<and> scanOpen [] (expand t c) = Some [] \<and> scanOpen [] rest = Some p') \<Longrightarrow>
   scanOpen p s = Some p' \<Longrightarrow> scanOpen p (replaceAllRe re t s) = Some p'"
proof (induction re t s arbitrary: p rule: replaceAllRe.induct)
  case (1 re t)
  then show ?case by simp
next
  case (2 re t x xs)
  note good = 2(4)
  note sc = 2(5)
  have keep: "scanOpen p (x # replaceAllRe re t xs) = Some p'"
    if ih: "\<And>q. scanOpen q xs = Some p' \<Longrightarrow> scanOpen q (replaceAllRe re t xs) = Some p'"
    using sc ih by (auto split: if_splits)
  show ?case
  proof (cases "rmatch re (x # xs) []")
    case None
    from keep[OF 2(1)[OF None good]] None show ?thesis by simp
  next
    case (Some m)
    obtain cap rest where m: "m = (cap, rest)" by (cases m) auto
    show ?thesis
    proof (cases "length rest \<le> length xs")
      case True
      from Some m have rm: "rmatch re (x # xs) [] = Some (cap, rest)" by simp
      from rmatch_accepts[OF rm] obtain w where w: "x # xs = w @ rest" and a: "accepts re w cap"
        by auto
      from sc w have "scanOpen p (w @ rest) = Some p'" by simp
      with good a have p: "p = []" and e: "scanOpen [] (expand t cap) = Some []"
        and r: "scanOpen [] rest = Some p'"
        by blast+
      from 2(2)[OF Some m[symmetric] True good r]
      have "scanOpen [] (replaceAllRe re t rest) = Some p'" by simp
      with e have "scanOpen [] (expand t cap @ replaceAllRe re t rest) = Some p'"
        by (simp add: scanOpen_append)
      with p rm True show ?thesis by simp
    next
      case False
      from Some m have rm: "rmatch re (x # xs) [] = Some (cap, rest)" by simp
      from keep[OF 2(3)[OF Some m[symmetric] False good]] rm False show ?thesis by simp
    qed
  qed
qed

lemma apart_open_close:
  assumes "re = lit (CHR ''<'' # L) @ [Star NotGt False, Chr CHR ''>'', Lazy k True] @ lit (CHR ''<'' # R @ ''>'')"
    and "CHR ''<'' \<notin> set pre" "CHR ''<'' \<notin> set suf"
    and "scanOpen p s = Some p'"
  shows "scanOpen p (replaceAllRe re (Group1 pre suf) s) = Some p'"
proof (rule replaceAllRe_apart[OF _ assms(4)])
  show "\<forall>w c p rest p'. accepts re w c \<and> scanOpen p (w @ rest) = Some p' \<longrightarrow>
      p = [] \<and> scanOpen [] (expand (Group1 pre suf) c) = Some [] \<and> scanOpen [] rest = Some p'"
  proof (intro allI impI, elim conjE)
    fix w c p rest p'
    assume a: "accepts re w c" and s: "scanOpen p (w @ rest) = Some p'"
    from a open_close_shape[of L k "R @ ''>''" w c] obtain t where "w = CHR ''<'' # t @ CHR ''>'' # c @ CHR ''<'' # R @ ''>''"
      unfolding assms(1) by blast
    then have w: "w = CHR ''<'' # t @ CHR ''>'' # c @ CHR ''<'' # R @ CHR ''>'' # []" by simp
    from pair_good[OF w _ assms(2,3) s]
    show "p = [] \<and> scanOpen [] (expand (Group1 pre suf) c) = Some [] \<and> scanOpen [] rest = Some p'"
      by simp
  qed
qed

lemma apart_plain_pair:
  assumes "re = lit (CHR ''<'' # L) @ [Chr CHR ''>'', Lazy k True] @ lit (CHR ''<'' # R @ ''>'')"
    and "CHR ''<'' \<notin> set pre" "CHR ''<'' \<notin> set suf"
    and "scanOpen p s = Some p'"
  shows "scanOpen p (replaceAllRe re (Group1 pre suf) s) = Some p'"
proof (rule replaceAllRe_apart[OF _ assms(4)])
  show "\<forall>w c p rest p'. accepts re w c \<and> scanOpen p (w @ rest) = Some p' \<longrightarrow>
      p = [] \<and> scanOpen [] (expand (Group1 pre suf) c) = Some [] \<and> scanOpen [] rest = Some p'"
  proof (intro allI impI, elim conjE)
    fix w c p rest p'
    assume a: "accepts re w c" and s: "scanOpen p (w @ rest) = Some p'"
    from a plain_pair_shape[of L k "R @ ''>''" w c] have "w = CHR ''<'' # L @ CHR ''>'' # c @ CHR ''<'' # R @ ''>''"
      unfolding assms(1) by blast
    then have w: "w = CHR ''<'' # L @ CHR ''>'' # c @ CHR ''<'' # R @ CHR ''>'' # []" by simp
    from pair_good[OF w _ assms(2,3) s]
    show "p = [] \<and> scanOpen [] (expand (Group1 pre suf) c) = Some [] \<and> scanOpen [] rest = Some p'"
      by simp
  qed
qed

lemma apart_tag:
  assumes "re = [Chr CHR ''<'', Opt CHR ''/''] @ lit L @ [Star NotGt False, Chr CHR ''>'']"
    and "scanOpen [] (expand t []) = Some []"
    and "scanOpen p s = Some p'"
  shows "scanOpen p (replaceAllRe re t s) = Some p'"
proof (rule replaceAllRe_apart[OF _ assms(3)])
  show "\<forall>w c p rest p'. accepts re w c \<and> scanOpen p (w @ rest) = Some p' \<longrightarrow>
      p = [] \<and> scanOpen [] (expand t c) = Some [] \<and> scanOpen [] rest = Some p'"
  proof (intro allI impI, elim conjE)
    fix w c p rest p'
    assume a: "accepts re w c" and s: "scanOpen p (w @ rest) = Some p'"
    from a tag_shape[of L w c] obtain u where c: "c = []" and w: "w = CHR ''<'' # u @ [CHR ''>'']"
      unfolding assms(1) by blast
    from tag_good[OF w s] c assms(2)
    show "p = [] \<and> scanOpen [] (expand t c) = Some [] \<and> scanOpen [] rest = Some p'"
      by simp
  qed
qed

lemma apart_br:
  assumes "scanOpen p s = Some p'"
  shows "scanOpen p (replaceAllRe brRe (Plain [CHR 0x0A]) s) = Some p'"
proof (rule replaceAllRe_apart[OF _ assms])
  show "\<forall>w c p rest p'. accepts brRe w c \<and> scanOpen p (w @ rest) = Some p' \<longrightarrow>
      p = [] \<and> scanOpen [] (expand (Plain [CHR 0x0A]) c) = Some [] \<and> scanOpen [] rest = Some p'"
  proof (intro allI impI, elim conjE)
    fix w c p rest p'
    assume a: "accepts brRe w c" and s: "scanOpen p (w @ rest) = Some p'"
    from br_shape[OF a] obtain u where w: "w = CHR ''<'' # u @ [CHR ''>'']" by blast
    from tag_good[OF w s]
    show "p = [] \<and> scanOpen [] (expand (Plain [CHR 0x0A]) c) = Some [] \<and> scanOpen [] rest = Some p'"
      by simp
  qed
qed

lemma spaces_plain:
  assumes "list_all (inCls Space) ws"
  shows "CHR ''<'' \<notin> set ws"
proof
  assume "CHR ''<'' \<in> set ws"
  with assms have "inCls Space CHR ''<''" unfolding list_all_iff by blast
  then show False by simp
qed

lemma apart_hidden:
  assumes "scanOpen p s = Some p'"
  shows "scanOpen p (replaceAllRe hiddenDivRe (Plain []) s) = Some p'"
proof (rule replaceAllRe_apart[OF _ assms])
  show "\<forall>w c p rest p'. accepts hiddenDivRe w c \<and> scanOpen p (w @ rest) = Some p' \<longrightarrow>
      p = [] \<and> scanOpen [] (expand (Plain []) c) = Some [] \<and> scanOpen [] rest = Some p'"
  proof (intro allI impI, elim conjE)
    fix w c p rest p'
    assume a: "accepts hiddenDivRe w c" and s: "scanOpen p (w @ rest) = Some p'"
    from hidden_shape[OF a] obtain t ws where "w = CHR ''<'' # t @ CHR ''>'' # c @ ''</div>'' @ ws"
      and sp: "list_all (inCls Space) ws"
      by blast
    then have w: "w = CHR ''<'' # t @ CHR ''>'' # c @ CHR ''<'' # ''/div'' @ CHR ''>'' # ws" by simp
    from pair_good[OF w spaces_plain[OF sp] _ _ s, of "[]" "[]"]
    show "p = [] \<and> scanOpen [] (expand (Plain []) c) = Some [] \<and> scanOpen [] rest = Some p'"
      by simp
  qed
qed

lemma convertMarkup_apart:
  assumes "scanOpen [] s = Some p'"
  obtains s8 where "scanOpen [] s8 = Some p'" and "convertMarkup s = replaceAllRe divRe (Plain []) s8"
proof -
  let ?s1 = "replaceAllRe h1Re (Group1 ''# '' []) s"
  let ?s2 = "replaceAllRe h2Re (Group1 ''## '' []) ?s1"
  let ?s3 = "replaceAllRe h3Re (Group1 ''### '' []) ?s2"
  let ?s4 = "replaceAllRe spanRe (Group1 [] []) ?s3"
  let ?s5 = "replaceAllRe brRe (Plain [CHR 0x0A]) ?s4"
  let ?s6 = "replaceAllRe kbdRe (Group1 ''`'' ''`'') ?s5"
  let ?s7 = "replaceAllRe supRe (Group1 [] []) ?s6"
  let ?s8 = "replaceAllRe strongRe (Group1 ''**'' ''**'') ?s7"
  have c1: "scanOpen [] ?s1 = Some p'"
    by (rule apart_open_close[of h1Re "''h1''" Dot "''/h1''", OF _ _ _ assms]) (simp_all add: h1Re_def)
  have c2: "scanOpen [] ?s2 = Some p'"
    by (rule apart_open_close[of h2Re "''h2''" Dot "''/h2''", OF _ _ _ c1]) (simp_all add: h2Re_def)
  have c3: "scanOpen [] ?s3 = Some p'"
    by (rule apart_open_close[of h3Re "''h3''" Dot "''/h3''", OF _ _ _ c2]) (simp_all add: h3Re_def)
  have c4: "scanOpen [] ?s4 = Some p'"
    by (rule apart_tag[of spanRe "''span''", OF _ _ c3]) (simp_all add: spanRe_def)
  have c5: "scanOpen [] ?s5 = Some p'" by (rule apart_br[OF c4])
  have c6: "scanOpen [] ?s6 = Some p'"
    by (rule apart_plain_pair[of kbdRe "''kbd''" Dot "''/kbd''", OF _ _ _ c5]) (simp_all add: kbdRe_def lit_def)
  have c7: "scanOpen [] ?s7 = Some p'"
    by (rule apart_plain_pair[of supRe "''sup''" Dot "''/sup''", OF _ _ _ c6]) (simp_all add: supRe_def lit_def)
  have c8: "scanOpen [] ?s8 = Some p'"
    by (rule apart_plain_pair[of strongRe "''strong''" Dot "''/strong''", OF _ _ _ c7])
      (simp_all add: strongRe_def lit_def)
  have "convertMarkup s = replaceAllRe divRe (Plain []) ?s8"
    by (simp add: convertMarkup_def)
  with c8 that show thesis by blast
qed

lemma star_to_gt:
  "CHR ''>'' \<notin> set u \<Longrightarrow> rmatch [Star NotGt False, Chr CHR ''>''] (u @ CHR ''>'' # r) cap = Some (cap, r)"
  by (induction u) (auto simp: grab_def)

lemma divRe_match:
  assumes "CHR ''>'' \<notin> set u"
  shows "rmatch divRe (''<div'' @ u @ CHR ''>'' # r) [] = Some ([], r)"
proof -
  have "rmatch (lit ''div'' @ [Star NotGt False, Chr CHR ''>'']) (''div'' @ u @ CHR ''>'' # r) []
      = rmatch [Star NotGt False, Chr CHR ''>''] (drop (length ''div'') (''div'' @ u @ CHR ''>'' # r)) []"
    by (simp only: lit_match) (simp add: hasPrefix_def)
  also have "\<dots> = Some ([], r)" using star_to_gt[OF assms, of r "[]"] by simp
  finally have "rmatch (lit ''div'' @ [Star NotGt False, Chr CHR ''>'']) (CHR ''d'' # ''iv'' @ u @ CHR ''>'' # r) [] = Some ([], r)"
    by simp
  then show ?thesis by (simp add: divRe_def)
qed

lemma div_open_no_gt:
  assumes "rmatch divRe (''<div'' @ xs) [] = None"
  shows "CHR ''>'' \<notin> set xs"
proof
  assume "CHR ''>'' \<in> set xs"
  from split_list_first[OF this] obtain u r where "xs = u @ CHR ''>'' # r" and "CHR ''>'' \<notin> set u"
    by blast
  with divRe_match[of u r] assms show False by simp
qed

lemma div_needs_gt:
  assumes "rmatch divRe z cap = Some m"
  shows "CHR ''>'' \<in> set z"
proof -
  obtain cap' rest where "m = (cap', rest)" by (cases m) auto
  with assms rmatch_accepts[of divRe z cap cap' rest] obtain w c where z: "z = w @ rest" and a: "accepts divRe w c"
    by blast
  from a tag_shape[of "''div''" w c] obtain u where "w = CHR ''<'' # u @ [CHR ''>'']"
    unfolding divRe_def by blast
  with z show ?thesis by simp
qed

lemma hidden_needs_gt:
  assumes "rmatch hiddenDivRe z cap = Some m"
  shows "CHR ''>'' \<in> set z"
proof -
  obtain cap' rest where "m = (cap', rest)" by (cases m) auto
  with assms rmatch_accepts[of hiddenDivRe z cap cap' rest] obtain w c where z: "z = w @ rest"
    and a: "accepts hiddenDivRe w c"
    by blast
  from hidden_shape[OF a] obtain t ws where "w = CHR ''<'' # t @ CHR ''>'' # c @ ''</div>'' @ ws"
    by blast
  with z show ?thesis by simp
qed

lemma no_gt_no_div:
  "CHR ''>'' \<notin> set z \<Longrightarrow> findSubmatch divRe z = None"
proof (induction z)
  case Nil
  then show ?case using div_needs_gt[of "[]" "[]"] by (cases "rmatch divRe [] []") auto
next
  case (Cons x z)
  then show ?case using div_needs_gt[of "x # z" "[]"] by (cases "rmatch divRe (x # z) []") auto
qed

lemma no_gt_div_id:
  "CHR ''>'' \<notin> set z \<Longrightarrow> replaceAllRe divRe t z = z"
  by (rule replaceAllRe_no_match) (rule no_gt_no_div)

lemma no_hidden_skip:
  "CHR ''<'' \<notin> set a \<Longrightarrow> findSubmatch hiddenDivRe (a @ s) = findSubmatch hiddenDivRe s"
proof (induction a)
  case Nil
  then show ?case by simp
next
  case (Cons x a)
  then have nx: "x \<noteq> CHR ''<''" and na: "CHR ''<'' \<notin> set a" by auto
  from nx have "\<not> hasPrefix (x # a @ s) ''<div''" by (simp add: hasPrefix_def)
  from hiddenDivRe_needs_div[OF this] Cons.IH[OF na] show ?case by simp
qed

lemma findAllRe_no_match:
  "findSubmatch re s = None \<Longrightarrow> findAllRe re s = []"
  by (induction s) (auto split: option.splits)

text \<open>
  Taking the \<open>div\<close> tags out of a text whose tags stay apart leaves nothing that the
  hidden-block pattern matches: an opening \<open>div\<close> that stays is one with no \<open>>\<close> behind
  it, and none is put together from the text on the two sides of a tag that goes.
\<close>

lemma div_strip:
  assumes "p \<in> {[], ''<'', ''<d'', ''<di''}" and "scanOpen p s = Some p'"
    and "p \<noteq> [] \<longrightarrow> rmatch divRe (p @ s) [] = None"
  shows "findSubmatch hiddenDivRe (p @ replaceAllRe divRe (Plain []) s) = None"
  using assms
proof (induction "length s" arbitrary: s p rule: less_induct)
  case less
  note pin = less.prems(1) and sc = less.prems(2) and nm = less.prems(3)
  show ?case
  proof (cases s)
    case Nil
    with pin show ?thesis by (auto simp: hiddenDivRe_def lit_def)
  next
    case (Cons x xs)
    let ?R = "replaceAllRe divRe (Plain []) xs"
    have lx: "length xs < length s" using Cons by simp
    show ?thesis
    proof (cases "p = []")
      case True
      show ?thesis
      proof (cases "rmatch divRe (x # xs) []")
        case (Some m)
        obtain cap rest where m: "m = (cap, rest)" by (cases m) auto
        from Some m have rm: "rmatch divRe (x # xs) [] = Some (cap, rest)" by simp
        from rmatch_accepts[OF rm] obtain w where w: "x # xs = w @ rest" and a: "accepts divRe w cap"
          by auto
        from a tag_shape[of "''div''" w cap] obtain u where w': "w = CHR ''<'' # u @ [CHR ''>'']"
          unfolding divRe_def by blast
        from w w' have "xs = u @ CHR ''>'' # rest" by simp
        then have le: "length rest \<le> length xs" by simp
        from sc Cons w True have "scanOpen [] (w @ rest) = Some p'" by simp
        from tag_good[OF w' this] have r: "scanOpen [] rest = Some p'" by simp
        from le Cons have "length rest < length s" by simp
        from less.hyps[OF this _ r] have "findSubmatch hiddenDivRe (replaceAllRe divRe (Plain []) rest) = None"
          by simp
        with rm le Cons True show ?thesis by simp
      next
        case None
        then have out: "replaceAllRe divRe (Plain []) s = x # ?R" by (simp add: Cons)
        show ?thesis
        proof (cases "x = CHR ''<''")
          case lt: True
          with sc Cons True have s1: "scanOpen ''<'' xs = Some p'" by simp
          have n1: "''<'' \<noteq> [] \<longrightarrow> rmatch divRe (''<'' @ xs) [] = None" using None lt by simp
          from less.hyps[OF lx _ s1 n1] have "findSubmatch hiddenDivRe (''<'' @ ?R) = None" by simp
          with out lt True show ?thesis by simp
        next
          case nl: False
          with sc Cons True have s0: "scanOpen [] xs = Some p'" by simp
          from less.hyps[OF lx _ s0] have ih: "findSubmatch hiddenDivRe ?R = None" by simp
          from nl have "\<not> hasPrefix (x # ?R) ''<div''" by (simp add: hasPrefix_def)
          from hiddenDivRe_needs_div[OF this] have "rmatch hiddenDivRe (x # ?R) [] = None" .
          with ih out True show ?thesis by simp
        qed
      qed
    next
      case False
      with pin have p3: "p = ''<'' \<or> p = ''<d'' \<or> p = ''<di''" by auto
      from sc Cons False have nl: "x \<noteq> CHR ''<''" by (auto split: if_splits)
      then have "rmatch divRe (x # xs) [] = None" by (simp add: divRe_def)
      then have out: "replaceAllRe divRe (Plain []) s = x # ?R" by (simp add: Cons)
      from False nm have nm': "rmatch divRe (p @ x # xs) [] = None" by (simp add: Cons)
      show ?thesis
      proof (cases "(p = ''<'' \<and> x = CHR ''d'') \<or> (p = ''<d'' \<and> x = CHR ''i'')")
        case True
        then have pin': "p @ [x] \<in> {[], ''<'', ''<d'', ''<di''}" by auto
        from True sc Cons have s': "scanOpen (p @ [x]) xs = Some p'" by auto
        have n': "p @ [x] \<noteq> [] \<longrightarrow> rmatch divRe ((p @ [x]) @ xs) [] = None" using nm' by simp
        from less.hyps[OF lx pin' s' n'] show ?thesis unfolding out by simp
      next
        case other: False
        with sc Cons nl False p3 have s0: "scanOpen [] xs = Some p'" by (auto split: if_splits)
        from less.hyps[OF lx _ s0] have ih: "findSubmatch hiddenDivRe ?R = None" by simp
        have tailc: "CHR ''<'' \<notin> set (tl p @ [x])" using p3 nl by auto
        have pe: "p @ x # ?R = CHR ''<'' # (tl p @ [x]) @ ?R" using p3 by auto
        have rest: "findSubmatch hiddenDivRe ((tl p @ [x]) @ ?R) = None"
          using no_hidden_skip[OF tailc, of ?R] ih by simp
        have head: "rmatch hiddenDivRe (CHR ''<'' # (tl p @ [x]) @ ?R) [] = None"
        proof (cases "p = ''<di'' \<and> x = CHR ''v''")
          case True
          with nm' have "rmatch divRe (''<div'' @ xs) [] = None" by simp
          from div_open_no_gt[OF this] have ng: "CHR ''>'' \<notin> set xs" .
          then have "?R = xs" by (rule no_gt_div_id)
          with ng True have "CHR ''>'' \<notin> set (CHR ''<'' # (tl p @ [x]) @ ?R)" by simp
          with hidden_needs_gt[of "CHR ''<'' # (tl p @ [x]) @ ?R" "[]"] show ?thesis
            by (cases "rmatch hiddenDivRe (CHR ''<'' # (tl p @ [x]) @ ?R) []") auto
        next
          case False
          with p3 other have "\<not> hasPrefix (CHR ''<'' # (tl p @ [x]) @ ?R) ''<div''"
            by (auto simp: hasPrefix_def)
          then show ?thesis by (rule hiddenDivRe_needs_div)
        qed
        from head rest show ?thesis unfolding out pe by simp
      qed
    qed
  qed
qed

lemma body_no_hidden:
  assumes "tagsApart raw"
  shows "findSubmatch hiddenDivRe (snd (snd (extractTitleAndClean raw))) = None"
proof -
  let ?s = "replaceAllRe hiddenDivRe (Plain []) (stripFrontMatter raw)"
  from tagsApart_stripFrontMatter[OF assms] have "tagsApart ([] @ stripFrontMatter raw)" by simp
  from apart_scan[OF _ this] obtain p' where "scanOpen [] (stripFrontMatter raw) = Some p'" by auto
  from apart_hidden[OF this] have "scanOpen [] ?s = Some p'" .
  then obtain s8 where c: "scanOpen [] s8 = Some p'" and e: "convertMarkup ?s = replaceAllRe divRe (Plain []) s8"
    by (rule convertMarkup_apart)
  from div_strip[OF _ c] have "findSubmatch hiddenDivRe (replaceAllRe divRe (Plain []) s8) = None"
    by simp
  then show ?thesis by (simp add: extractTitleAndClean_def Let_def e)
qed

text \<open>
  C5, as stated: in this document no hidden block is found (the opening \<open>div\<close> tag
  is split by another tag), so the keywords are empty; the last step strips the two
  inner tags, and the returned body is the hidden block
  \<open><div style="display:none">secret</div>\<close>, which the program's own pattern finds.
\<close>

theorem body_can_hold_hidden_block:
  "extractTitleAndClean ''<di<div>v style=\"display:none\">secret</di</div>v>''
     = ([], [], ''<div style=\"display:none\">secret</div>'')
   \<and> findAllRe hiddenDivRe
       (snd (snd (extractTitleAndClean ''<di<div>v style=\"display:none\">secret</di</div>v>'')))
     = [''secret'']"
  by code_simp

text \<open>
  C5, amended: for every document the keywords are the trimmed, non-empty captures
  of the hidden-block pattern, found from the left without overlap in the text after
  the front matter, in that order and joined by single spaces; they are taken from
  the same text from which the matches are then removed, and the body is the converted
  remainder. When the tags of the document stay apart (no \<open><\<close> comes directly behind
  another \<open><\<close>, or behind \<open><d\<close> or \<open><di\<close>), the hidden-block pattern matches nowhere
  in the body. When the text after the front matter consists of hidden
  blocks whose inner text holds no closing \<open>div\<close> tag, separated by text in which no
  \<open>div\<close> element opens, the keywords are the trimmed, non-empty inner texts of the
  blocks in document order, and the body is the conversion of the text outside the
  blocks (without the white space that directly follows a block).
\<close>

theorem hidden_blocks_extracted_and_removed:
  "fst (snd (extractTitleAndClean raw))
      = join (filter (\<lambda>kw. kw \<noteq> []) (map trimSpace (findAllRe hiddenDivRe (stripFrontMatter raw)))) '' ''
   \<and> snd (snd (extractTitleAndClean raw))
      = convertMarkup (replaceAllRe hiddenDivRe (Plain []) (stripFrontMatter raw))
   \<and> (tagsApart raw \<longrightarrow>
        findSubmatch hiddenDivRe (snd (snd (extractTitleAndClean raw))) = None
        \<and> findAllRe hiddenDivRe (snd (snd (extractTitleAndClean raw))) = [])
   \<and> (stripFrontMatter raw = document g bs \<and> \<not> occurs ''<div'' g \<and> list_all wellFormedBlock bs \<longrightarrow>
        snd (extractTitleAndClean raw)
          = (join (filter (\<lambda>kw. kw \<noteq> []) (map trimSpace (map inner bs))) '' '',
             convertMarkup (g @ concat (map followingTrimmed bs))))"
proof -
  have a: "fst (snd (extractTitleAndClean raw))
      = join (filter (\<lambda>kw. kw \<noteq> []) (map trimSpace (findAllRe hiddenDivRe (stripFrontMatter raw)))) '' ''"
    by (simp add: extractTitleAndClean_def Let_def)
  have b: "snd (snd (extractTitleAndClean raw))
      = convertMarkup (replaceAllRe hiddenDivRe (Plain []) (stripFrontMatter raw))"
    by (simp add: extractTitleAndClean_def Let_def)
  have c: "tagsApart raw \<longrightarrow>
        findSubmatch hiddenDivRe (snd (snd (extractTitleAndClean raw))) = None
        \<and> findAllRe hiddenDivRe (snd (snd (extractTitleAndClean raw))) = []"
  proof
    assume "tagsApart raw"
    from body_no_hidden[OF this] findAllRe_no_match
    show "findSubmatch hiddenDivRe (snd (snd (extractTitleAndClean raw))) = None
        \<and> findAllRe hiddenDivRe (snd (snd (extractTitleAndClean raw))) = []"
      by blast
  qed
  have d: "stripFrontMatter raw = document g bs \<and> \<not> occurs ''<div'' g \<and> list_all wellFormedBlock bs \<longrightarrow>
        snd (extractTitleAndClean raw)
          = (join (filter (\<lambda>kw. kw \<noteq> []) (map trimSpace (map inner bs))) '' '',
             convertMarkup (g @ concat (map followingTrimmed bs)))"
  proof
    assume h: "stripFrontMatter raw = document g bs \<and> \<not> occurs ''<div'' g \<and> list_all wellFormedBlock bs"
    then have s: "stripFrontMatter raw = document g bs" and ng: "\<not> occurs ''<div'' g"
      and wf: "list_all wellFormedBlock bs"
      by simp_all
    note sc = document_scan[OF ng wf]
    have "snd (extractTitleAndClean raw) = (fst (snd (extractTitleAndClean raw)), snd (snd (extractTitleAndClean raw)))"
      by simp
    also have "\<dots> = (join (filter (\<lambda>kw. kw \<noteq> []) (map trimSpace (map inner bs))) '' '',
             convertMarkup (g @ concat (map followingTrimmed bs)))"
      unfolding a b s sc ..
    finally show "snd (extractTitleAndClean raw)
          = (join (filter (\<lambda>kw. kw \<noteq> []) (map trimSpace (map inner bs))) '' '',
             convertMarkup (g @ concat (map followingTrimmed bs)))" .
  qed
  from a b c d show ?thesis by (intro conjI)
qed

text \<open>
  C5, witness: a page with front matter, a heading element and one hidden block with
  the inner text \<open>alpha beta\<close>, followed by a line that holds a \<open><\<close> of its own. Its
  tags stay apart. The keywords are \<open>alpha beta\<close>, and the body is the heading and the
  last line; the hidden-block pattern matches nowhere in it.
\<close>

theorem hidden_blocks_extracted_and_removed_witness:
  "tagsApart (''---'' @ [CHR 0x0A] @ ''t: x'' @ [CHR 0x0A] @ ''---'' @ [CHR 0x0A] @ ''<h1>Iota</h1>'' @ [CHR 0x0A]
       @ ''<div style=\"display: none\"> alpha beta </div>'' @ [CHR 0x0A] @ ''Body 1 < 2'')
   \<and> stripFrontMatter (''---'' @ [CHR 0x0A] @ ''t: x'' @ [CHR 0x0A] @ ''---'' @ [CHR 0x0A] @ ''<h1>Iota</h1>'' @ [CHR 0x0A]
       @ ''<div style=\"display: none\"> alpha beta </div>'' @ [CHR 0x0A] @ ''Body 1 < 2'')
       = document (''<h1>Iota</h1>'' @ [CHR 0x0A])
           [Block '' style=\"'' '' '' ''\"'' '' alpha beta '' ([CHR 0x0A] @ ''Body 1 < 2'')]
   \<and> \<not> occurs ''<div'' (''<h1>Iota</h1>'' @ [CHR 0x0A])
   \<and> list_all wellFormedBlock [Block '' style=\"'' '' '' ''\"'' '' alpha beta '' ([CHR 0x0A] @ ''Body 1 < 2'')]
   \<and> extractTitleAndClean (''---'' @ [CHR 0x0A] @ ''t: x'' @ [CHR 0x0A] @ ''---'' @ [CHR 0x0A] @ ''<h1>Iota</h1>'' @ [CHR 0x0A]
       @ ''<div style=\"display: none\"> alpha beta </div>'' @ [CHR 0x0A] @ ''Body 1 < 2'')
       = (''Iota'', ''alpha beta'', ''# Iota'' @ [CHR 0x0A] @ ''Body 1 < 2'')
   \<and> findSubmatch hiddenDivRe (snd (snd (extractTitleAndClean
        (''---'' @ [CHR 0x0A] @ ''t: x'' @ [CHR 0x0A] @ ''---'' @ [CHR 0x0A] @ ''<h1>Iota</h1>'' @ [CHR 0x0A]
       @ ''<div style=\"display: none\"> alpha beta </div>'' @ [CHR 0x0A] @ ''Body 1 < 2'')))) = None"
proof -
  let ?raw = "''---'' @ [CHR 0x0A] @ ''t: x'' @ [CHR 0x0A] @ ''---'' @ [CHR 0x0A] @ ''<h1>Iota</h1>'' @ [CHR 0x0A]
       @ ''<div style=\"display: none\"> alpha beta </div>'' @ [CHR 0x0A] @ ''Body 1 < 2''"
  let ?g = "''<h1>Iota</h1>'' @ [CHR 0x0A]"
  let ?bs = "[Block '' style=\"'' '' '' ''\"'' '' alpha beta '' ([CHR 0x0A] @ ''Body 1 < 2'')]"
  have a: "tagsApart ?raw" by code_simp
  have b: "stripFrontMatter ?raw = document ?g ?bs" by code_simp
  have c: "\<not> occurs ''<div'' ?g" by code_simp
  have d: "list_all wellFormedBlock ?bs" by code_simp
  have t: "fst (extractTitleAndClean ?raw) = ''Iota''" by code_simp
  have k: "join (filter (\<lambda>kw. kw \<noteq> []) (map trimSpace (map inner ?bs))) '' '' = ''alpha beta''"
    by code_simp
  have m: "convertMarkup (?g @ concat (map followingTrimmed ?bs)) = ''# Iota'' @ [CHR 0x0A] @ ''Body 1 < 2''"
    by code_simp
  note T = hidden_blocks_extracted_and_removed[of ?raw ?g ?bs]
  from T[THEN conjunct2, THEN conjunct2, THEN conjunct2] b c d
  have "snd (extractTitleAndClean ?raw)
      = (join (filter (\<lambda>kw. kw \<noteq> []) (map trimSpace (map inner ?bs))) '' '',
         convertMarkup (?g @ concat (map followingTrimmed ?bs)))"
    by blast
  then have s: "snd (extractTitleAndClean ?raw) = (''alpha beta'', ''# Iota'' @ [CHR 0x0A] @ ''Body 1 < 2'')"
    by (simp only: k m)
  from t s have e: "extractTitleAndClean ?raw = (''Iota'', ''alpha beta'', ''# Iota'' @ [CHR 0x0A] @ ''Body 1 < 2'')"
    by (metis prod.collapse)
  from T[THEN conjunct2, THEN conjunct2, THEN conjunct1] a
  have f: "findSubmatch hiddenDivRe (snd (snd (extractTitleAndClean ?raw))) = None" by blast
  from a b c d e f show ?thesis by (intro conjI)
qed
section \<open>Symbol Matcher: properties\<close>

lemma rangeScan_find:
  "set ks \<subseteq> dom idx \<Longrightarrow>
   rangeScan ks u idx = (case find (qualifies u) ks of None \<Rightarrow> None | Some k \<Rightarrow> idx k)"
proof (induction ks)
  case Nil
  then show ?case by simp
next
  case (Cons k ks)
  then obtain p where "idx k = Some p" by auto
  with Cons show ?case by simp
qed

lemma rangeScan_none_iff:
  "rangeScan ks u idx = None \<longleftrightarrow> (\<forall>k\<in>set ks. qualifies u k \<longrightarrow> idx k = None)"
proof (induction ks)
  case Nil
  then show ?case by simp
next
  case (Cons k ks)
  show ?case
  proof (cases "idx k")
    case None
    with Cons show ?thesis by simp
  next
    case (Some p)
    with Cons show ?thesis by (cases "qualifies u k") simp_all
  qed
qed

lemma rangeScan_some:
  "rangeScan ks u idx = Some p \<Longrightarrow> \<exists>k\<in>set ks. qualifies u k \<and> idx k = Some p"
proof (induction ks)
  case Nil
  then show ?case by simp
next
  case (Cons k ks)
  show ?case
  proof (cases "idx k")
    case None
    with Cons show ?thesis by simp
  next
    case (Some q)
    show ?thesis
    proof (cases "qualifies u k")
      case True
      with Some Cons.prems show ?thesis by simp
    next
      case False
      with Some Cons show ?thesis by simp
    qed
  qed
qed

lemma insertHelpURL_distinct:
  "distinct (map fst tbl) \<Longrightarrow> distinct (map fst (insertHelpURL s p tbl))"
  by (auto simp: insertHelpURL_def)

lemma matchingPass_distinct:
  "distinct (map fst tbl) \<Longrightarrow> distinct (map fst (matchingPass ord i es idx tbl))"
  by (induction es arbitrary: i tbl) (auto simp: insertHelpURL_distinct split: option.splits)

lemma matchingPass_origin:
  "(s, p) \<in> set (matchingPass ord i es idx tbl) \<Longrightarrow>
   (s, p) \<in> set tbl \<or>
   (\<exists>j < length es. symbol (es ! j) = s \<and> matchHelpURL (ord (i + j)) (url (es ! j)) idx = Some p)"
proof (induction es arbitrary: i tbl)
  case Nil
  then show ?case by simp
next
  case (Cons e es)
  show ?case
  proof (cases "matchHelpURL (ord i) (url e) idx")
    case None
    with Cons.prems have "(s, p) \<in> set (matchingPass ord (Suc i) es idx tbl)" by simp
    from Cons.IH[OF this] show ?thesis by fastforce
  next
    case (Some q)
    with Cons.prems
    have "(s, p) \<in> set (matchingPass ord (Suc i) es idx (insertHelpURL (symbol e) q tbl))" by simp
    from Cons.IH[OF this] Some show ?thesis
      by (fastforce simp: insertHelpURL_def split: if_splits)
  qed
qed

lemma map_of_insertHelpURL:
  "map_of (insertHelpURL s' p tbl) s
     = (case map_of tbl s of Some q \<Rightarrow> Some q | None \<Rightarrow> if s = s' then Some p else None)"
proof (cases "s' \<in> set (map fst tbl)")
  case True
  then have "map_of tbl s' \<noteq> None" by (simp add: map_of_eq_None_iff)
  with True show ?thesis by (auto simp: insertHelpURL_def split: option.splits)
next
  case False
  then show ?thesis
    by (auto simp: insertHelpURL_def map_add_def split: option.splits)
qed

lemma matchingPass_map_of:
  "map_of (matchingPass ord i es idx tbl) s
     = (case map_of tbl s of
          Some q \<Rightarrow> Some q
        | None \<Rightarrow>
           (case find (\<lambda>(j, e). symbol e = s \<and> matchHelpURL (ord j) (url e) idx \<noteq> None) (enumerate i es) of
              None \<Rightarrow> None
            | Some (j, e) \<Rightarrow> matchHelpURL (ord j) (url e) idx))"
proof (induction es arbitrary: i tbl)
  case Nil
  then show ?case by (simp split: option.splits)
next
  case (Cons e es)
  let ?P = "\<lambda>(j, e). symbol e = s \<and> matchHelpURL (ord j) (url e) idx \<noteq> None"
  let ?F = "\<lambda>r. case r of None \<Rightarrow> None | Some (j, e) \<Rightarrow> matchHelpURL (ord j) (url e) idx"
  have en: "enumerate i (e # es) = (i, e) # enumerate (Suc i) es" by simp
  show ?case
  proof (cases "matchHelpURL (ord i) (url e) idx")
    case None
    then have f: "find ?P (enumerate i (e # es)) = find ?P (enumerate (Suc i) es)"
      unfolding en by simp
    show ?thesis unfolding f using None by (simp add: Cons.IH)
  next
    case (Some q)
    note mq = this
    have step: "map_of (matchingPass ord i (e # es) idx tbl) s
        = map_of (matchingPass ord (Suc i) es idx (insertHelpURL (symbol e) q tbl)) s"
      using mq by simp
    show ?thesis
    proof (cases "map_of tbl s")
      case (Some r)
      then have "map_of (insertHelpURL (symbol e) q tbl) s = Some r"
        by (simp add: map_of_insertHelpURL)
      with Some show ?thesis unfolding step Cons.IH by simp
    next
      case None
      show ?thesis
      proof (cases "symbol e = s")
        case True
        with None have "map_of (insertHelpURL (symbol e) q tbl) s = Some q"
          by (simp add: map_of_insertHelpURL)
        moreover have "find ?P (enumerate i (e # es)) = Some (i, e)"
          using True mq unfolding en by simp
        ultimately show ?thesis
          using None mq unfolding step Cons.IH by simp
      next
        case False
        with None have "map_of (insertHelpURL (symbol e) q tbl) s = None"
          by (simp add: map_of_insertHelpURL)
        moreover have "find ?P (enumerate i (e # es)) = find ?P (enumerate (Suc i) es)"
          using False unfolding en by simp
        ultimately show ?thesis
          using None unfolding step Cons.IH by simp
      qed
    qed
  qed
qed

text \<open>
  C6: \<open>matchHelpURL\<close> answers from the exact key when the index has it; otherwise from the
  key with \<open>/index\<close> appended when the index has that; otherwise from the first key, in the
  order the map is ranged over, that equals the reference path or ends with \<open>/\<close> and the
  reference path; and it finds nothing exactly when all three tiers fail. The
  \<open>help_urls\<close> table written by the matching pass has at most one row per symbol; each
  row is a successful match of an entry with that symbol; and the row of a symbol is
  the match of the first entry with that symbol that has a match (a symbol has no row
  exactly when none of its entries has a match).
\<close>

theorem matchHelpURL_three_tiers:
  assumes "set ks = dom idx"
  shows "(idx u = Some p \<longrightarrow> matchHelpURL ks u idx = Some p)
   \<and> (idx u = None \<and> idx (u @ ''/index'') = Some p \<longrightarrow> matchHelpURL ks u idx = Some p)
   \<and> (idx u = None \<and> idx (u @ ''/index'') = None \<longrightarrow>
        matchHelpURL ks u idx =
          (case find (qualifies u) ks of None \<Rightarrow> None | Some k \<Rightarrow> idx k))
   \<and> (matchHelpURL ks u idx = None \<longleftrightarrow>
        idx u = None \<and> idx (u @ ''/index'') = None \<and> (\<forall>k\<in>set ks. \<not> hasSuffix k (''/'' @ u)))
   \<and> distinct (map fst (matchingPass ord 0 es idx []))
   \<and> (\<forall>(s, q) \<in> set (matchingPass ord 0 es idx []).
        \<exists>j < length es. symbol (es ! j) = s \<and> matchHelpURL (ord j) (url (es ! j)) idx = Some q)
   \<and> map_of (matchingPass ord 0 es idx []) s
       = (case find (\<lambda>(j, e). symbol e = s \<and> matchHelpURL (ord j) (url e) idx \<noteq> None) (enumerate 0 es) of
            None \<Rightarrow> None
          | Some (j, e) \<Rightarrow> matchHelpURL (ord j) (url e) idx)"
proof -
  have t1: "idx u = Some p \<longrightarrow> matchHelpURL ks u idx = Some p"
    by (simp add: matchHelpURL_def)
  have t2: "idx u = None \<and> idx (u @ ''/index'') = Some p \<longrightarrow> matchHelpURL ks u idx = Some p"
    by (simp add: matchHelpURL_def)
  have t3: "idx u = None \<and> idx (u @ ''/index'') = None \<longrightarrow>
        matchHelpURL ks u idx =
          (case find (qualifies u) ks of None \<Rightarrow> None | Some k \<Rightarrow> idx k)"
    using assms by (simp add: matchHelpURL_def rangeScan_find)
  have sub: "set ks \<subseteq> dom idx" using assms by simp
  have t4: "matchHelpURL ks u idx = None \<longleftrightarrow>
        idx u = None \<and> idx (u @ ''/index'') = None \<and> (\<forall>k\<in>set ks. \<not> hasSuffix k (''/'' @ u))"
  proof (cases "idx u")
    case None
    then have nu: "u \<notin> set ks" using assms by auto
    have "rangeScan ks u idx = None \<longleftrightarrow> (\<forall>k\<in>set ks. \<not> hasSuffix k (''/'' @ u))"
    proof
      assume "rangeScan ks u idx = None"
      then have a: "\<forall>k\<in>set ks. qualifies u k \<longrightarrow> idx k = None"
        by (simp only: rangeScan_none_iff)
      show "\<forall>k\<in>set ks. \<not> hasSuffix k (''/'' @ u)"
      proof
        fix k assume k: "k \<in> set ks"
        with sub have "idx k \<noteq> None" by auto
        with a k have "\<not> qualifies u k" by auto
        then show "\<not> hasSuffix k (''/'' @ u)" by (simp add: qualifies_def)
      qed
    next
      assume b: "\<forall>k\<in>set ks. \<not> hasSuffix k (''/'' @ u)"
      have "\<forall>k\<in>set ks. qualifies u k \<longrightarrow> idx k = None"
      proof (intro ballI impI)
        fix k assume "k \<in> set ks" "qualifies u k"
        with b nu have False by (auto simp: qualifies_def)
        then show "idx k = None" ..
      qed
      then show "rangeScan ks u idx = None" by (simp only: rangeScan_none_iff)
    qed
    with None show ?thesis
      by (cases "idx (u @ ''/index'')") (simp_all add: matchHelpURL_def)
  next
    case (Some a)
    then show ?thesis by (simp add: matchHelpURL_def)
  qed
  have t5: "distinct (map fst (matchingPass ord 0 es idx []))"
    by (rule matchingPass_distinct) simp
  have t6: "\<forall>(s, q) \<in> set (matchingPass ord 0 es idx []).
        \<exists>j < length es. symbol (es ! j) = s \<and> matchHelpURL (ord j) (url (es ! j)) idx = Some q"
    using matchingPass_origin[of _ _ ord 0 es idx "[]"] by auto
  have t7: "map_of (matchingPass ord 0 es idx []) s
       = (case find (\<lambda>(j, e). symbol e = s \<and> matchHelpURL (ord j) (url e) idx \<noteq> None) (enumerate 0 es) of
            None \<Rightarrow> None
          | Some (j, e) \<Rightarrow> matchHelpURL (ord j) (url e) idx)"
    by (simp add: matchingPass_map_of)
  from t1 t2 t3 t4 t5 t6 t7 show ?thesis by blast
qed

text \<open>
  C6, witness: the index holds \<open>lang/primitives/index-generator\<close> and
  \<open>lang/primitives/shape\<close>. The reference path \<open>lang/primitives/index-generator\<close> is
  answered by the exact lookup, the reference path \<open>primitives/index-generator\<close> by the
  suffix scan, \<open>primitives/iota\<close> by nothing. Of five entries, the two with matches for
  new symbols get their rows, with different paths; the second entry for the symbol
  \<open>i\<close> and the entry without a match leave no row, and the symbol \<open>s\<close>, whose first
  entry has no match, gets the row of its second entry.
\<close>

theorem matchHelpURL_three_tiers_witness:
  "set [''lang/primitives/index-generator'', ''lang/primitives/shape'']
     = dom [''lang/primitives/index-generator'' \<mapsto> ''Lang / Index Generator'',
            ''lang/primitives/shape'' \<mapsto> ''Lang / Shape'']
   \<and> matchHelpURL [''lang/primitives/index-generator'', ''lang/primitives/shape''] ''lang/primitives/index-generator''
        [''lang/primitives/index-generator'' \<mapsto> ''Lang / Index Generator'',
         ''lang/primitives/shape'' \<mapsto> ''Lang / Shape''] = Some ''Lang / Index Generator''
   \<and> matchHelpURL [''lang/primitives/index-generator'', ''lang/primitives/shape''] ''primitives/index-generator''
        [''lang/primitives/index-generator'' \<mapsto> ''Lang / Index Generator'',
         ''lang/primitives/shape'' \<mapsto> ''Lang / Shape''] = Some ''Lang / Index Generator''
   \<and> matchHelpURL [''lang/primitives/index-generator'', ''lang/primitives/shape''] ''primitives/iota''
        [''lang/primitives/index-generator'' \<mapsto> ''Lang / Index Generator'',
         ''lang/primitives/shape'' \<mapsto> ''Lang / Shape''] = None
   \<and> matchingPass (\<lambda>i. [''lang/primitives/index-generator'', ''lang/primitives/shape'']) 0
        [\<lparr>symbol = ''s'', url = ''primitives/rho''\<rparr>,
         \<lparr>symbol = ''i'', url = ''primitives/index-generator''\<rparr>,
         \<lparr>symbol = ''s'', url = ''primitives/shape''\<rparr>,
         \<lparr>symbol = ''i'', url = ''lang/primitives/shape''\<rparr>,
         \<lparr>symbol = ''z'', url = ''primitives/iota''\<rparr>]
        [''lang/primitives/index-generator'' \<mapsto> ''Lang / Index Generator'',
         ''lang/primitives/shape'' \<mapsto> ''Lang / Shape''] []
      = [(''i'', ''Lang / Index Generator''), (''s'', ''Lang / Shape'')]
   \<and> map_of (matchingPass (\<lambda>i. [''lang/primitives/index-generator'', ''lang/primitives/shape'']) 0
        [\<lparr>symbol = ''s'', url = ''primitives/rho''\<rparr>,
         \<lparr>symbol = ''i'', url = ''primitives/index-generator''\<rparr>,
         \<lparr>symbol = ''s'', url = ''primitives/shape''\<rparr>,
         \<lparr>symbol = ''i'', url = ''lang/primitives/shape''\<rparr>,
         \<lparr>symbol = ''z'', url = ''primitives/iota''\<rparr>]
        [''lang/primitives/index-generator'' \<mapsto> ''Lang / Index Generator'',
         ''lang/primitives/shape'' \<mapsto> ''Lang / Shape''] []) ''s'' = Some ''Lang / Shape''"
proof -
  let ?idx = "[''lang/primitives/index-generator'' \<mapsto> ''Lang / Index Generator'',
               ''lang/primitives/shape'' \<mapsto> ''Lang / Shape'']"
  let ?ks = "[''lang/primitives/index-generator'', ''lang/primitives/shape'']"
  let ?es = "[\<lparr>symbol = ''s'', url = ''primitives/rho''\<rparr>,
         \<lparr>symbol = ''i'', url = ''primitives/index-generator''\<rparr>,
         \<lparr>symbol = ''s'', url = ''primitives/shape''\<rparr>,
         \<lparr>symbol = ''i'', url = ''lang/primitives/shape''\<rparr>,
         \<lparr>symbol = ''z'', url = ''primitives/iota''\<rparr>]"
  have d: "set ?ks = dom ?idx" by auto
  have a: "matchHelpURL ?ks ''lang/primitives/index-generator'' ?idx = Some ''Lang / Index Generator''"
    using matchHelpURL_three_tiers[OF d, where u = "''lang/primitives/index-generator''" and p = "''Lang / Index Generator''",
        THEN conjunct1]
    by simp
  have b: "matchHelpURL ?ks ''primitives/index-generator'' ?idx = Some ''Lang / Index Generator''"
    using matchHelpURL_three_tiers[OF d, where u = "''primitives/index-generator''",
        THEN conjunct2, THEN conjunct2, THEN conjunct1]
    by (simp add: qualifies_def hasSuffix_def)
  have c: "matchHelpURL ?ks ''primitives/iota'' ?idx = None"
    using matchHelpURL_three_tiers[OF d, where u = "''primitives/iota''",
        THEN conjunct2, THEN conjunct2, THEN conjunct2, THEN conjunct1]
    by (simp add: hasSuffix_def)
  have m: "matchingPass (\<lambda>i. ?ks) 0 ?es ?idx [] = [(''i'', ''Lang / Index Generator''), (''s'', ''Lang / Shape'')]"
    by (simp add: hasSuffix_def qualifies_def matchHelpURL_def insertHelpURL_def)
  have r: "map_of (matchingPass (\<lambda>i. ?ks) 0 ?es ?idx []) ''s'' = Some ''Lang / Shape''"
    using matchHelpURL_three_tiers[OF d, where ord = "\<lambda>i. ?ks" and es = ?es and s = "''s''",
        THEN conjunct2, THEN conjunct2, THEN conjunct2, THEN conjunct2, THEN conjunct2, THEN conjunct2]
    by (simp add: hasSuffix_def qualifies_def matchHelpURL_def)
  from d a b c m r show ?thesis by (intro conjI)
qed

text \<open>
  C7, as stated: the index holds \<open>a/x\<close> and \<open>b/x\<close>, both of which end with \<open>/x\<close>. Ranging
  over the map in one order answers \<open>A\<close>, in the other order \<open>B\<close>: the same index and the
  same reference path, two different associations.
\<close>

theorem matchHelpURL_order_dependent:
  "matchHelpURL [''a/x'', ''b/x''] ''x'' [''a/x'' \<mapsto> ''A'', ''b/x'' \<mapsto> ''B'']
     \<noteq> matchHelpURL [''b/x'', ''a/x''] ''x'' [''a/x'' \<mapsto> ''A'', ''b/x'' \<mapsto> ''B'']"
  by (simp add: matchHelpURL_def qualifies_def hasSuffix_def)

text \<open>
  C7, amended: the suffix scan applies no tie-break; it answers from the first qualifying
  key in the order the map happens to be ranged over. Two runs over the same index and
  the same reference path give the same answer when the exact lookup or the lookup
  with \<open>/index\<close> succeeds (whatever the orders), and when all qualifying keys carry the
  same navigation path (so, whenever at most one key qualifies). When both lookups
  fail and two qualifying keys carry different navigation paths, the answer depends on
  which of the two is ranged over first.
\<close>

theorem matchHelpURL_deterministic_when_unambiguous:
  "(idx u \<noteq> None \<or> idx (u @ ''/index'') \<noteq> None \<longrightarrow>
      matchHelpURL ks1 u idx = matchHelpURL ks2 u idx)
   \<and> (set ks1 = set ks2
        \<and> (\<forall>k1 \<in> set ks1. \<forall>k2 \<in> set ks1. qualifies u k1 \<and> qualifies u k2 \<longrightarrow> idx k1 = idx k2) \<longrightarrow>
      matchHelpURL ks1 u idx = matchHelpURL ks2 u idx)
   \<and> (idx u = None \<and> idx (u @ ''/index'') = None
        \<and> qualifies u k1 \<and> qualifies u k2 \<and> idx k1 = Some p1 \<and> idx k2 = Some p2 \<and> p1 \<noteq> p2 \<longrightarrow>
      matchHelpURL (k1 # k2 # ks) u idx = Some p1 \<and> matchHelpURL (k2 # k1 # ks) u idx = Some p2)"
proof -
  have a: "idx u \<noteq> None \<or> idx (u @ ''/index'') \<noteq> None \<longrightarrow>
      matchHelpURL ks1 u idx = matchHelpURL ks2 u idx"
  proof
    assume h: "idx u \<noteq> None \<or> idx (u @ ''/index'') \<noteq> None"
    show "matchHelpURL ks1 u idx = matchHelpURL ks2 u idx"
    proof (cases "idx u")
      case (Some p)
      then show ?thesis by (simp add: matchHelpURL_def)
    next
      case None
      with h obtain p where "idx (u @ ''/index'') = Some p" by auto
      with None show ?thesis by (simp add: matchHelpURL_def)
    qed
  qed
  have b: "set ks1 = set ks2
        \<and> (\<forall>k1 \<in> set ks1. \<forall>k2 \<in> set ks1. qualifies u k1 \<and> qualifies u k2 \<longrightarrow> idx k1 = idx k2) \<longrightarrow>
      matchHelpURL ks1 u idx = matchHelpURL ks2 u idx"
  proof
    assume h: "set ks1 = set ks2
        \<and> (\<forall>k1 \<in> set ks1. \<forall>k2 \<in> set ks1. qualifies u k1 \<and> qualifies u k2 \<longrightarrow> idx k1 = idx k2)"
    then have eq: "set ks1 = set ks2"
      and un: "\<forall>k1 \<in> set ks1. \<forall>k2 \<in> set ks1. qualifies u k1 \<and> qualifies u k2 \<longrightarrow> idx k1 = idx k2"
      by blast+
    have "rangeScan ks1 u idx = rangeScan ks2 u idx"
    proof (cases "rangeScan ks1 u idx")
      case None
      then have "\<forall>k\<in>set ks1. qualifies u k \<longrightarrow> idx k = None"
        by (simp only: rangeScan_none_iff)
      then have "\<forall>k\<in>set ks2. qualifies u k \<longrightarrow> idx k = None"
        by (simp only: eq)
      then have "rangeScan ks2 u idx = None" by (simp only: rangeScan_none_iff)
      with None show ?thesis by simp
    next
      case (Some p)
      from rangeScan_some[OF Some]
      obtain k1 where k1: "k1 \<in> set ks1" "qualifies u k1" "idx k1 = Some p"
        by blast
      have "rangeScan ks2 u idx \<noteq> None"
      proof
        assume "rangeScan ks2 u idx = None"
        then have "\<forall>k\<in>set ks2. qualifies u k \<longrightarrow> idx k = None"
          by (simp only: rangeScan_none_iff)
        with k1(1,2) eq have "idx k1 = None" by blast
        with k1(3) show False by simp
      qed
      then obtain p2 where p2: "rangeScan ks2 u idx = Some p2" by blast
      from rangeScan_some[OF p2] eq
      obtain k2 where k2: "k2 \<in> set ks1" "qualifies u k2" "idx k2 = Some p2"
        by blast
      from un k1(1,2) k2(1,2) have "idx k1 = idx k2" by blast
      with k1(3) k2(3) have "p = p2" by simp
      with Some p2 show ?thesis by simp
    qed
    then show "matchHelpURL ks1 u idx = matchHelpURL ks2 u idx" by (simp only: matchHelpURL_def)
  qed
  have c: "idx u = None \<and> idx (u @ ''/index'') = None
        \<and> qualifies u k1 \<and> qualifies u k2 \<and> idx k1 = Some p1 \<and> idx k2 = Some p2 \<and> p1 \<noteq> p2 \<longrightarrow>
      matchHelpURL (k1 # k2 # ks) u idx = Some p1 \<and> matchHelpURL (k2 # k1 # ks) u idx = Some p2"
  proof
    assume h: "idx u = None \<and> idx (u @ ''/index'') = None
        \<and> qualifies u k1 \<and> qualifies u k2 \<and> idx k1 = Some p1 \<and> idx k2 = Some p2 \<and> p1 \<noteq> p2"
    then have n: "idx u = None" "idx (u @ ''/index'') = None"
      and q: "qualifies u k1" "qualifies u k2"
      and i: "idx k1 = Some p1" "idx k2 = Some p2"
      by simp_all
    have "rangeScan (k1 # k2 # ks) u idx = Some p1" using q(1) i(1) by simp
    moreover have "rangeScan (k2 # k1 # ks) u idx = Some p2" using q(2) i(2) by simp
    ultimately show "matchHelpURL (k1 # k2 # ks) u idx = Some p1 \<and> matchHelpURL (k2 # k1 # ks) u idx = Some p2"
      using n by (simp add: matchHelpURL_def)
  qed
  from a b c show ?thesis by (intro conjI)
qed

text \<open>
  C7, witness: with \<open>a/x\<close> the only key that ends with \<open>/x\<close>, both orders answer \<open>A\<close>;
  with the key \<open>x\<close> in the index the exact lookup answers \<open>X\<close> in both orders although
  \<open>a/x\<close> and \<open>b/x\<close> disagree; without it the first of the two decides.
\<close>

theorem matchHelpURL_deterministic_when_unambiguous_witness:
  "set [''a/x'', ''b/y''] = set [''b/y'', ''a/x'']
   \<and> matchHelpURL [''a/x'', ''b/y''] ''x'' [''a/x'' \<mapsto> ''A'', ''b/y'' \<mapsto> ''B'']
     = matchHelpURL [''b/y'', ''a/x''] ''x'' [''a/x'' \<mapsto> ''A'', ''b/y'' \<mapsto> ''B'']
   \<and> matchHelpURL [''a/x'', ''b/y''] ''x'' [''a/x'' \<mapsto> ''A'', ''b/y'' \<mapsto> ''B''] = Some ''A''
   \<and> matchHelpURL [''x'', ''a/x'', ''b/x''] ''x'' [''x'' \<mapsto> ''X'', ''a/x'' \<mapsto> ''A'', ''b/x'' \<mapsto> ''B'']
     = matchHelpURL [''b/x'', ''a/x'', ''x''] ''x'' [''x'' \<mapsto> ''X'', ''a/x'' \<mapsto> ''A'', ''b/x'' \<mapsto> ''B'']
   \<and> matchHelpURL [''a/x'', ''b/x''] ''x'' [''a/x'' \<mapsto> ''A'', ''b/x'' \<mapsto> ''B''] = Some ''A''
   \<and> matchHelpURL [''b/x'', ''a/x''] ''x'' [''a/x'' \<mapsto> ''A'', ''b/x'' \<mapsto> ''B''] = Some ''B''"
proof -
  have s: "set [''a/x'', ''b/y''] = set [''b/y'', ''a/x'']" by auto
  have q: "\<forall>k1 \<in> set [''a/x'', ''b/y'']. \<forall>k2 \<in> set [''a/x'', ''b/y''].
           qualifies ''x'' k1 \<and> qualifies ''x'' k2
             \<longrightarrow> [''a/x'' \<mapsto> ''A'', ''b/y'' \<mapsto> ''B''] k1 = [''a/x'' \<mapsto> ''A'', ''b/y'' \<mapsto> ''B''] k2"
    by (simp add: qualifies_def hasSuffix_def)
  have one: "matchHelpURL [''a/x'', ''b/y''] ''x'' [''a/x'' \<mapsto> ''A'', ''b/y'' \<mapsto> ''B'']
     = matchHelpURL [''b/y'', ''a/x''] ''x'' [''a/x'' \<mapsto> ''A'', ''b/y'' \<mapsto> ''B'']"
    using matchHelpURL_deterministic_when_unambiguous[of "[''a/x'' \<mapsto> ''A'', ''b/y'' \<mapsto> ''B'']" "''x''"
        "[''a/x'', ''b/y'']" "[''b/y'', ''a/x'']"] s q
    by blast
  have two: "matchHelpURL [''x'', ''a/x'', ''b/x''] ''x'' [''x'' \<mapsto> ''X'', ''a/x'' \<mapsto> ''A'', ''b/x'' \<mapsto> ''B'']
     = matchHelpURL [''b/x'', ''a/x'', ''x''] ''x'' [''x'' \<mapsto> ''X'', ''a/x'' \<mapsto> ''A'', ''b/x'' \<mapsto> ''B'']"
    using matchHelpURL_deterministic_when_unambiguous[of "[''x'' \<mapsto> ''X'', ''a/x'' \<mapsto> ''A'', ''b/x'' \<mapsto> ''B'']" "''x''"
        "[''x'', ''a/x'', ''b/x'']" "[''b/x'', ''a/x'', ''x'']"]
    by simp
  have three: "matchHelpURL [''a/x'', ''b/x''] ''x'' [''a/x'' \<mapsto> ''A'', ''b/x'' \<mapsto> ''B''] = Some ''A''
     \<and> matchHelpURL [''b/x'', ''a/x''] ''x'' [''a/x'' \<mapsto> ''A'', ''b/x'' \<mapsto> ''B''] = Some ''B''"
    using matchHelpURL_deterministic_when_unambiguous[of "[''a/x'' \<mapsto> ''A'', ''b/x'' \<mapsto> ''B'']" "''x''"
        "[]" "[]" "''a/x''" "''b/x''" "''A''" "''B''" "[]"]
    by (simp add: qualifies_def hasSuffix_def)
  have four: "matchHelpURL [''a/x'', ''b/y''] ''x'' [''a/x'' \<mapsto> ''A'', ''b/y'' \<mapsto> ''B''] = Some ''A''"
    by (simp add: matchHelpURL_def qualifies_def hasSuffix_def)
  from s one two three four show ?thesis by (intro conjI) simp_all
qed
section \<open>Paths of recovered pages\<close>





























section \<open>Disambiguation recovery: properties\<close>

lemma splitN2_no_sep: "c \<notin> set u \<Longrightarrow> splitN2 u c = [u]"
  by (simp add: splitN2_def)









text \<open>
  The hypothesis on the reference paths in the theorem below is needed. The page
  \<open>lang/docs/symbols/index.md\<close> exists. The reference path \<open>lang/symbols\<close> of the symbol
  \<open>s\<close> is recovered from it and indexed under \<open>lang/symbols\<close>. The reference path
  \<open>lang/symbols/index\<close> of the symbol \<open>t\<close> is recovered from the same file, and its
  breadcrumb overwrites the index key \<open>lang/symbols\<close> (the normalizer strips \<open>/index\<close>).
  The matching pass then sends \<open>s\<close> to the entry recovered for \<open>t\<close> and finds nothing
  for \<open>t\<close>.
\<close>

lemma later_recovery_overwrites_key:
  "writeTables recoveryEnv (\<lambda>i. [''lang/symbols'']) (\<lambda>i. [''lang/symbols'']) ''/r''
        (Some [\<lparr>symbol = ''s'', url = ''lang/symbols''\<rparr>, \<lparr>symbol = ''t'', url = ''lang/symbols/index''\<rparr>]) []
      = ([\<lparr>path = ''Lang / Symbols'', file = ''lang/docs/symbols/index.md'', title = ''Symbols'',
            keywords = [], content = ''# Symbols'', exclude = True\<rparr>,
          \<lparr>path = ''Lang / Symbols / Index'', file = ''lang/docs/symbols/index.md'', title = ''Symbols'',
            keywords = [], content = ''# Symbols'', exclude = True\<rparr>],
         [(''s'', ''Lang / Symbols / Index'')])
   \<and> plainURL ''lang/symbols'' \<and> \<not> plainURL ''lang/symbols/index''"
  by code_simp



text \<open>
  C10: for a reference path without a separator \<open>findHelpFile\<close> answers not-found and
  has tried to read no file.
\<close>

theorem findHelpFile_single_segment:
  "CHR ''/'' \<notin> set u \<Longrightarrow> findHelpFile E u root = (None, [])"
  by (simp add: findHelpFile_def splitN2_no_sep)

text \<open>
  C10, witness: the page \<open>iota.md\<close> exists in the top-level document root, and the
  reference path \<open>iota\<close> is still not found.
\<close>

theorem findHelpFile_single_segment_witness:
  "CHR ''/'' \<notin> set ''iota''
   \<and> readFile recoveryEnv (joinPath [''/r'', ''docs'', ''iota'' @ ''.md'']) = Some ''# Top iota''
   \<and> findHelpFile recoveryEnv ''iota'' ''/r'' = (None, [])"
proof -
  have a: "CHR ''/'' \<notin> set ''iota''" by simp
  have r: "readFile recoveryEnv (joinPath [''/r'', ''docs'', ''iota'' @ ''.md'']) = Some ''# Top iota''"
    by code_simp
  from findHelpFile_single_segment[OF a, of recoveryEnv "''/r''"] a r show ?thesis by simp
qed

section \<open>Error propagation\<close>

lemma walk_total:
  "nestsNode E rr fuel n \<longrightarrow> walkNavNode E fuel n dd rr b st \<noteq> None"
  "nestsNodes E rr fuel ns \<longrightarrow> walkNav E fuel ns dd rr b st \<noteq> None"
  "nestsPairs E rr fuel ps \<longrightarrow> walkPairs E fuel ps dd rr b st \<noteq> None"
  "nestsInclude E rr fuel v \<longrightarrow> handleInclude E fuel v pt rr b st \<noteq> None"
proof (induction E fuel n dd rr b st and E fuel ns dd rr b st and E fuel ps dd rr b st and E fuel v pt rr b st
    rule: walkNavNode_walkNav_walkPairs_handleInclude.induct)
  case (1 E fuel k v c docsDir repoRoot breadcrumb st)
  then show ?case by (cases k) auto
next
  case (2 E fuel docsDir repoRoot breadcrumb st)
  then show ?case by simp
next
  case (3 E fuel n ns docsDir repoRoot breadcrumb st)
  then show ?case by (auto split: option.splits)
next
  case (4 E fuel docsDir repoRoot breadcrumb st)
  then show ?case by simp
next
  case (5 E fuel key docsDir repoRoot breadcrumb st)
  then show ?case by simp
next
  case (6 E fuel key vk vv vc rest docsDir repoRoot breadcrumb st)
  show ?case
  proof
    assume n: "nestsPairs E repoRoot fuel (key # Node vk vv vc # rest)"
    obtain p st1 where ap: "appendStr E breadcrumb (Value key) st = (p, st1)"
      by (cases "appendStr E breadcrumb (Value key) st") auto
    let ?r = "(case vk of
           ScalarNode \<Rightarrow>
             if hasPrefix vv ''!include ''
             then handleInclude E fuel vv (Value key) repoRoot breadcrumb st
             else (case appendStr E breadcrumb (Value key) st of
                     (path1, st1) \<Rightarrow> Some (addDoc E vv docsDir repoRoot path1 st1))
         | SequenceNode \<Rightarrow>
             (case appendStr E breadcrumb (Value key) st of
                (path1, st1) \<Rightarrow> walkNav E fuel vc docsDir repoRoot path1 st1)
         | MappingNode \<Rightarrow>
             (case appendStr E breadcrumb (Value key) st of
                (path1, st1) \<Rightarrow> walkNavNode E fuel (Node vk vv vc) docsDir repoRoot path1 st1)
         | _ \<Rightarrow> Some st)"
    have r: "?r \<noteq> None"
    proof (cases vk)
      case DocumentNode
      then show ?thesis by simp
    next
      case SequenceNode
      with 6(1)[OF SequenceNode ap[symmetric]] n show ?thesis by (simp add: ap)
    next
      case MappingNode
      with 6(2)[OF MappingNode ap[symmetric]] n show ?thesis by (simp add: ap)
    next
      case ScalarNode
      with 6(3)[OF ScalarNode] n show ?thesis by (auto simp: ap)
    next
      case AliasNode
      then show ?thesis by simp
    qed
    then obtain st2 where st2: "?r = Some st2" by blast
    from n have "nestsPairs E repoRoot fuel rest" by simp
    with 6(4)[OF st2] have "walkPairs E fuel rest docsDir repoRoot breadcrumb st2 \<noteq> None" by simp
    moreover have "walkPairs E fuel (key # Node vk vv vc # rest) docsDir repoRoot breadcrumb st
       = walkPairs E fuel rest docsDir repoRoot breadcrumb st2"
      using st2 by simp
    ultimately show "walkPairs E fuel (key # Node vk vv vc # rest) docsDir repoRoot breadcrumb st \<noteq> None"
      by metis
  qed
next
  case (7 E fuel v parentTitle repoRoot breadcrumb st)
  show ?case
  proof
    assume n: "nestsInclude E repoRoot fuel v"
    let ?absPath = "joinPath [repoRoot, trimSpace (trimPrefix v ''!include '')]"
    show "handleInclude E fuel v parentTitle repoRoot breadcrumb st \<noteq> None"
    proof (cases "parseMkdocs E ?absPath")
      case (Inl err)
      then show ?thesis by simp
    next
      case (Inr cfg)
      obtain p st1 where ap: "appendStr E breadcrumb parentTitle st = (p, st1)"
        by (cases "appendStr E breadcrumb parentTitle st") auto
      show ?thesis
      proof (cases fuel)
        case 0
        with n Inr show ?thesis by simp
      next
        case (Suc fuel')
        with n Inr have "nestsNodes E repoRoot fuel' (Nav cfg)" by simp
        with 7[OF refl refl Inr refl refl refl ap[symmetric] Suc]
        show ?thesis by (simp add: Inr ap Suc)
      qed
    qed
  qed
qed

lemma walk_nests:
  "walkNavNode E fuel n dd rr b st \<noteq> None \<longrightarrow> nestsNode E rr fuel n"
  "walkNav E fuel ns dd rr b st \<noteq> None \<longrightarrow> nestsNodes E rr fuel ns"
  "walkPairs E fuel ps dd rr b st \<noteq> None \<longrightarrow> nestsPairs E rr fuel ps"
  "handleInclude E fuel v pt rr b st \<noteq> None \<longrightarrow> nestsInclude E rr fuel v"
proof (induction E fuel n dd rr b st and E fuel ns dd rr b st and E fuel ps dd rr b st and E fuel v pt rr b st
    rule: walkNavNode_walkNav_walkPairs_handleInclude.induct)
  case (1 E fuel k v c docsDir repoRoot breadcrumb st)
  then show ?case by (cases k) auto
next
  case (2 E fuel docsDir repoRoot breadcrumb st)
  then show ?case by simp
next
  case (3 E fuel n ns docsDir repoRoot breadcrumb st)
  show ?case
  proof
    assume w: "walkNav E fuel (n # ns) docsDir repoRoot breadcrumb st \<noteq> None"
    then obtain st1 where s1: "walkNavNode E fuel n docsDir repoRoot breadcrumb st = Some st1"
      by (cases "walkNavNode E fuel n docsDir repoRoot breadcrumb st") auto
    with w have "walkNav E fuel ns docsDir repoRoot breadcrumb st1 \<noteq> None" by simp
    with 3(2)[OF s1] have "nestsNodes E repoRoot fuel ns" by simp
    moreover from 3(1) s1 have "nestsNode E repoRoot fuel n" by simp
    ultimately show "nestsNodes E repoRoot fuel (n # ns)" by simp
  qed
next
  case (4 E fuel docsDir repoRoot breadcrumb st)
  then show ?case by simp
next
  case (5 E fuel key docsDir repoRoot breadcrumb st)
  then show ?case by simp
next
  case (6 E fuel key vk vv vc rest docsDir repoRoot breadcrumb st)
  show ?case
  proof
    assume w: "walkPairs E fuel (key # Node vk vv vc # rest) docsDir repoRoot breadcrumb st \<noteq> None"
    obtain p st1 where ap: "appendStr E breadcrumb (Value key) st = (p, st1)"
      by (cases "appendStr E breadcrumb (Value key) st") auto
    let ?r = "(case vk of
           ScalarNode \<Rightarrow>
             if hasPrefix vv ''!include ''
             then handleInclude E fuel vv (Value key) repoRoot breadcrumb st
             else (case appendStr E breadcrumb (Value key) st of
                     (path1, st1) \<Rightarrow> Some (addDoc E vv docsDir repoRoot path1 st1))
         | SequenceNode \<Rightarrow>
             (case appendStr E breadcrumb (Value key) st of
                (path1, st1) \<Rightarrow> walkNav E fuel vc docsDir repoRoot path1 st1)
         | MappingNode \<Rightarrow>
             (case appendStr E breadcrumb (Value key) st of
                (path1, st1) \<Rightarrow> walkNavNode E fuel (Node vk vv vc) docsDir repoRoot path1 st1)
         | _ \<Rightarrow> Some st)"
    have unf: "walkPairs E fuel (key # Node vk vv vc # rest) docsDir repoRoot breadcrumb st
       = (case ?r of None \<Rightarrow> None | Some st2 \<Rightarrow> walkPairs E fuel rest docsDir repoRoot breadcrumb st2)"
      by simp
    from w obtain st2 where st2: "?r = Some st2"
      unfolding unf by (cases ?r) auto
    with w have "walkPairs E fuel rest docsDir repoRoot breadcrumb st2 \<noteq> None"
      unfolding unf by simp
    with 6(4)[OF st2] have tl: "nestsPairs E repoRoot fuel rest" by simp
    have hd: "(case vk of
         ScalarNode \<Rightarrow> (if hasPrefix vv ''!include '' then nestsInclude E repoRoot fuel vv else True)
       | SequenceNode \<Rightarrow> nestsNodes E repoRoot fuel vc
       | MappingNode \<Rightarrow> nestsNode E repoRoot fuel (Node vk vv vc)
       | _ \<Rightarrow> True)"
    proof (cases vk)
      case DocumentNode
      then show ?thesis by simp
    next
      case SequenceNode
      with st2 have "walkNav E fuel vc docsDir repoRoot p st1 \<noteq> None" by (simp add: ap)
      with 6(1)[OF SequenceNode ap[symmetric]] SequenceNode show ?thesis by simp
    next
      case MappingNode
      with st2 have "walkNavNode E fuel (Node vk vv vc) docsDir repoRoot p st1 \<noteq> None" by (simp add: ap)
      with 6(2)[OF MappingNode ap[symmetric]] MappingNode show ?thesis by simp
    next
      case ScalarNode
      show ?thesis
      proof (cases "hasPrefix vv ''!include ''")
        case True
        with st2 ScalarNode have "handleInclude E fuel vv (Value key) repoRoot breadcrumb st \<noteq> None"
          by simp
        with 6(3)[OF ScalarNode True] ScalarNode True show ?thesis by simp
      next
        case False
        with ScalarNode show ?thesis by simp
      qed
    next
      case AliasNode
      then show ?thesis by simp
    qed
    from hd tl show "nestsPairs E repoRoot fuel (key # Node vk vv vc # rest)" by simp
  qed
next
  case (7 E fuel v parentTitle repoRoot breadcrumb st)
  show ?case
  proof
    assume w: "handleInclude E fuel v parentTitle repoRoot breadcrumb st \<noteq> None"
    let ?absPath = "joinPath [repoRoot, trimSpace (trimPrefix v ''!include '')]"
    show "nestsInclude E repoRoot fuel v"
    proof (cases "parseMkdocs E ?absPath")
      case (Inl err)
      then show ?thesis by simp
    next
      case (Inr cfg)
      obtain p st1 where ap: "appendStr E breadcrumb parentTitle st = (p, st1)"
        by (cases "appendStr E breadcrumb parentTitle st") auto
      show ?thesis
      proof (cases fuel)
        case 0
        with w Inr show ?thesis by simp
      next
        case (Suc fuel')
        with w Inr ap have "walkNav E fuel' (Nav cfg)
            (joinPath [dirPath ?absPath, if DocsDir cfg = [] then ''docs'' else DocsDir cfg])
            repoRoot p st1 \<noteq> None"
          by (simp add: Let_def)
        with 7[OF refl refl Inr refl refl refl ap[symmetric] Suc]
        have "nestsNodes E repoRoot fuel' (Nav cfg)" by simp
        with Inr Suc show ?thesis by simp
      qed
    qed
  qed
qed

lemma nests_member:
  "nestsNodes E rr d ns \<Longrightarrow> n \<in> set ns \<Longrightarrow> nestsNode E rr d n"
  by (induction ns) auto

lemma self_inclusion_unbounded:
  assumes "hasPrefix v ''!include ''"
    and "parseMkdocs E (joinPath [rr, trimSpace (trimPrefix v ''!include '')]) = Inr cfg"
    and "Node MappingNode x [key, Node ScalarNode v c] \<in> set (Nav cfg)"
  shows "\<not> nestsNodes E rr d (Nav cfg)"
proof (induction d)
  case 0
  show ?case
  proof
    assume "nestsNodes E rr 0 (Nav cfg)"
    from nests_member[OF this assms(3)] assms(1,2) show False by simp
  qed
next
  case (Suc d)
  show ?case
  proof
    assume "nestsNodes E rr (Suc d) (Nav cfg)"
    from nests_member[OF this assms(3)] assms(1,2) have "nestsNodes E rr d (Nav cfg)" by simp
    with Suc show False by simp
  qed
qed

lemma writeDatabase_completed:
  assumes "find faults (databaseSteps helpEntries) = None"
  shows "writeDatabase E faults ordA ordB tmp helpEntries docs
     = Completed (fst (writeTables E ordA ordB tmp helpEntries docs))
                 (snd (writeTables E ordA ordB tmp helpEntries docs))"
proof (cases helpEntries)
  case None
  from assms have "\<And>s. s \<in> set (databaseSteps helpEntries) \<Longrightarrow> \<not> faults s"
    by (auto simp: find_None_iff)
  with None have "\<not> faults OpenDatabase" "\<not> faults CreateSchema" "\<not> faults BeginDocs"
    "\<not> faults PrepareDocs" "\<not> faults CommitDocs"
    by (simp_all add: databaseSteps_def)
  with None show ?thesis by (simp add: writeDatabase_def writeTables_def)
next
  case (Some es)
  from assms have "\<And>s. s \<in> set (databaseSteps helpEntries) \<Longrightarrow> \<not> faults s"
    by (auto simp: find_None_iff)
  with Some have "\<not> faults OpenDatabase" "\<not> faults CreateSchema" "\<not> faults BeginDocs"
    "\<not> faults PrepareDocs" "\<not> faults CommitDocs" "\<not> faults BeginRecovery" "\<not> faults PrepareRecovery"
    "\<not> faults CommitRecovery" "\<not> faults BeginHelp" "\<not> faults PrepareHelp" "\<not> faults CommitHelp"
    by (simp_all add: databaseSteps_def)
  with Some show ?thesis
    by (simp add: writeDatabase_def writeTables_def Let_def split: prod.splits)
qed

lemma writeDatabase_aborted:
  assumes "find faults (databaseSteps helpEntries) = Some s"
  shows "\<exists>ds. writeDatabase E faults ordA ordB tmp helpEntries docs = Aborted (StepFailed s) ds []"
proof (cases helpEntries)
  case None
  with assms show ?thesis
    by (simp add: databaseSteps_def writeDatabase_def Let_def split: if_splits)
next
  case (Some es)
  obtain t f a where r: "recoveryPass E ordA 0 tmp es (insertDocs docs [], buildIndex docs Map.empty, 0) = (t, f, a)"
    by (rule prod_cases3)
  from assms Some show ?thesis
    by (simp add: databaseSteps_def writeDatabase_def Let_def r split: if_splits)
qed

lemma cyclic_parse:
  "parseMkdocs cyclicEnv ''/r/mkdocs.yml'' = Inr \<lparr>SiteName = ''Docs'', DocsDir = [], Nav = cyclicNav\<rparr>"
  by (simp add: parseMkdocs_def cyclicEnv_def)

lemma cyclic_path:
  "joinPath [''/r'', trimSpace (trimPrefix ''!include ./mkdocs.yml'' ''!include '')] = ''/r/mkdocs.yml''"
  by code_simp

lemma cyclic_handle:
  "handleInclude cyclicEnv (Suc fuel) ''!include ./mkdocs.yml'' t ''/r'' b st
     = walkNav cyclicEnv fuel cyclicNav (joinPath [dirPath ''/r/mkdocs.yml'', ''docs'']) ''/r''
         (fst (appendStr cyclicEnv b t st)) (snd (appendStr cyclicEnv b t st))"
  "handleInclude cyclicEnv 0 ''!include ./mkdocs.yml'' t ''/r'' b st = None"
  by (simp_all add: cyclic_path cyclic_parse split: prod.splits)

lemma cyclic_walk:
  "walkNav cyclicEnv fuel cyclicNav dd ''/r'' b st
     = handleInclude cyclicEnv fuel ''!include ./mkdocs.yml'' ''Loop'' ''/r'' b st"
  by (simp add: cyclicNav_def titled_def scalar_def hasPrefix_def split: option.splits)

lemma cyclic_diverges:
  "walkNav cyclicEnv fuel cyclicNav dd ''/r'' b st = None"
proof (induction fuel arbitrary: dd b st)
  case 0
  show ?case by (simp only: cyclic_walk cyclic_handle)
next
  case (Suc fuel)
  have "walkNav cyclicEnv (Suc fuel) cyclicNav dd ''/r'' b st
      = handleInclude cyclicEnv (Suc fuel) ''!include ./mkdocs.yml'' ''Loop'' ''/r'' b st"
    by (rule cyclic_walk)
  also have "\<dots> = walkNav cyclicEnv fuel cyclicNav (joinPath [dirPath ''/r/mkdocs.yml'', ''docs'']) ''/r''
         (fst (appendStr cyclicEnv b ''Loop'' st)) (snd (appendStr cyclicEnv b ''Loop'' st))"
    by (rule cyclic_handle(1))
  also have "\<dots> = None" by (rule Suc)
  finally show ?case .
qed

text \<open>
  C9, as stated: the root configuration of this repository is read and parsed, and no
  step of the process or of the database fails, but the configuration includes itself;
  the walk never returns, whatever bound on the nesting is allowed, and the run ends
  without a catalog.
\<close>

theorem cyclic_inclusion_aborts:
  "parseMkdocs cyclicEnv (joinPath [''/r'', ''mkdocs.yml''])
     = Inr \<lparr>SiteName = ''Docs'', DocsDir = [], Nav = cyclicNav\<rparr>
   \<and> (\<forall>fuel. collectDocs cyclicEnv fuel ''/r'' = None)
   \<and> (\<forall>fuel. mainRun cyclicEnv (\<lambda>s. False) fuel (\<lambda>i. []) (\<lambda>i. []) ''/r'' None = None)"
proof -
  have p: "joinPath [''/r'', ''mkdocs.yml''] = ''/r/mkdocs.yml''" by code_simp
  have c: "collectDocs cyclicEnv fuel ''/r'' = None" for fuel
    by (simp add: collectDocs_def p cyclic_parse cyclic_diverges)
  then have "mainRun cyclicEnv (\<lambda>s. False) fuel (\<lambda>i. []) (\<lambda>i. []) ''/r'' None = None" for fuel
    by (simp add: mainRun_def)
  with c p cyclic_parse show ?thesis by simp
qed

text \<open>
  C9, amended: a leaf that does not end in \<open>.md\<close> leaves the state as it is; an
  unreadable document adds one warning and nothing else, and the walk goes on with the
  next sibling; an inclusion whose configuration cannot be read or parsed adds one
  warning and nothing else, and the walk goes on with the next pair.

  The run ends with the fatal configuration error exactly when the temporary directory
  and the clone succeed and the top-level configuration cannot be read or parsed, and
  then nothing has been written. It also ends early when the temporary directory or
  the clone fails. When the top-level configuration loads, the walk returns exactly
  when the inclusions that load nest at most \<open>fuel\<close> deep; no bound exists for a
  configuration one of whose navigation items includes that same configuration, so
  that run never produces a catalog. After the walk the run completes with both tables exactly when
  no database step fails, and otherwise ends at the first step that fails, with no
  association written.
\<close>

theorem error_propagation:
  "(\<not> hasSuffix m ''.md'' \<longrightarrow> addDoc E m dd rr b st = st)
   \<and> (hasSuffix m ''.md'' \<and> readFile E (joinPath [dd, m]) = None \<longrightarrow>
        addDoc E m dd rr b st = st\<lparr>logged := logged st @ [DocWarning m ReadError]\<rparr>
        \<and> walkNav E fuel (Node ScalarNode m [] # ns) dd rr b st
            = walkNav E fuel ns dd rr b (st\<lparr>logged := logged st @ [DocWarning m ReadError]\<rparr>))
   \<and> (hasPrefix v ''!include ''
        \<and> parseMkdocs E (joinPath [rr, trimSpace (trimPrefix v ''!include '')]) = Inl err \<longrightarrow>
        handleInclude E fuel v t rr b st
            = Some (st\<lparr>logged := logged st @ [IncludeWarning (trimSpace (trimPrefix v ''!include '')) err]\<rparr>)
        \<and> walkPairs E fuel (key # Node ScalarNode v [] # ps) dd rr b st
            = walkPairs E fuel ps dd rr b
                (st\<lparr>logged := logged st @ [IncludeWarning (trimSpace (trimPrefix v ''!include '')) err]\<rparr>))
   \<and> (mainRun E faults fuel ordA ordB tmp helpEntries = Some (Aborted (RootConfig err) ds hs)
        \<longleftrightarrow> \<not> faults MkdirTemp \<and> \<not> faults GitClone
            \<and> parseMkdocs E (joinPath [tmp, ''mkdocs.yml'']) = Inl err \<and> ds = [] \<and> hs = [])
   \<and> (faults MkdirTemp \<longrightarrow>
        mainRun E faults fuel ordA ordB tmp helpEntries = Some (Aborted (StepFailed MkdirTemp) [] []))
   \<and> (\<not> faults MkdirTemp \<and> faults GitClone \<longrightarrow>
        mainRun E faults fuel ordA ordB tmp helpEntries = Some (Aborted (StepFailed GitClone) [] []))
   \<and> (\<not> faults MkdirTemp \<and> \<not> faults GitClone
        \<and> parseMkdocs E (joinPath [tmp, ''mkdocs.yml'']) = Inr cfg \<longrightarrow>
        (mainRun E faults fuel ordA ordB tmp helpEntries \<noteq> None \<longleftrightarrow> nestsNodes E tmp fuel (Nav cfg))
        \<and> (nestsNodes E tmp fuel (Nav cfg) \<longrightarrow>
             (\<exists>st'. collectDocs E fuel tmp = Some (Inr st')
                   \<and> mainRun E faults fuel ordA ordB tmp helpEntries
                       = Some (writeDatabase E faults ordA ordB tmp helpEntries (out st'))))
        \<and> (hasPrefix v ''!include ''
             \<and> parseMkdocs E (joinPath [tmp, trimSpace (trimPrefix v ''!include '')]) = Inr cfg
             \<and> Node MappingNode x [key, Node ScalarNode v c] \<in> set (Nav cfg) \<longrightarrow>
             mainRun E faults fuel ordA ordB tmp helpEntries = None))
   \<and> (find faults (databaseSteps helpEntries) = None \<longrightarrow>
        writeDatabase E faults ordA ordB tmp helpEntries docs
          = Completed (fst (writeTables E ordA ordB tmp helpEntries docs))
                      (snd (writeTables E ordA ordB tmp helpEntries docs)))
   \<and> (find faults (databaseSteps helpEntries) = Some s \<longrightarrow>
        (\<exists>rows. writeDatabase E faults ordA ordB tmp helpEntries docs = Aborted (StepFailed s) rows []))"
proof -
  have a: "\<not> hasSuffix m ''.md'' \<longrightarrow> addDoc E m dd rr b st = st"
    by (simp add: addDoc_def)
  have b: "hasSuffix m ''.md'' \<and> readFile E (joinPath [dd, m]) = None \<longrightarrow>
        addDoc E m dd rr b st = st\<lparr>logged := logged st @ [DocWarning m ReadError]\<rparr>
        \<and> walkNav E fuel (Node ScalarNode m [] # ns) dd rr b st
            = walkNav E fuel ns dd rr b (st\<lparr>logged := logged st @ [DocWarning m ReadError]\<rparr>)"
    by (simp add: addDoc_def)
  have c: "hasPrefix v ''!include ''
        \<and> parseMkdocs E (joinPath [rr, trimSpace (trimPrefix v ''!include '')]) = Inl err \<longrightarrow>
        handleInclude E fuel v t rr b st
            = Some (st\<lparr>logged := logged st @ [IncludeWarning (trimSpace (trimPrefix v ''!include '')) err]\<rparr>)
        \<and> walkPairs E fuel (key # Node ScalarNode v [] # ps) dd rr b st
            = walkPairs E fuel ps dd rr b
                (st\<lparr>logged := logged st @ [IncludeWarning (trimSpace (trimPrefix v ''!include '')) err]\<rparr>)"
    by simp
  have d: "mainRun E faults fuel ordA ordB tmp helpEntries = Some (Aborted (RootConfig err) ds hs)
        \<longleftrightarrow> \<not> faults MkdirTemp \<and> \<not> faults GitClone
            \<and> parseMkdocs E (joinPath [tmp, ''mkdocs.yml'']) = Inl err \<and> ds = [] \<and> hs = []"
  proof (cases "faults MkdirTemp \<or> faults GitClone")
    case True
    then show ?thesis by (auto simp: mainRun_def)
  next
    case False
    show ?thesis
    proof (cases "parseMkdocs E (joinPath [tmp, ''mkdocs.yml''])")
      case (Inl e)
      with False show ?thesis by (auto simp: mainRun_def collectDocs_def)
    next
      case (Inr cfg')
      let ?w = "walkNav E fuel (Nav cfg') (joinPath [tmp, if DocsDir cfg' = [] then ''docs'' else DocsDir cfg'])
                  tmp nilSlice initState"
      have "mainRun E faults fuel ordA ordB tmp helpEntries \<noteq> Some (Aborted (RootConfig err) ds hs)"
      proof (cases ?w)
        case None
        with False Inr show ?thesis by (simp add: mainRun_def collectDocs_def Let_def)
      next
        case (Some st')
        have "writeDatabase E faults ordA ordB tmp helpEntries (out st') \<noteq> Aborted (RootConfig err) ds hs"
        proof (cases "find faults (databaseSteps helpEntries)")
          case None
          from writeDatabase_completed[OF this] show ?thesis by simp
        next
          case (Some s')
          from writeDatabase_aborted[OF this, of E ordA ordB tmp "out st'"] show ?thesis by auto
        qed
        with False Inr Some show ?thesis by (simp add: mainRun_def collectDocs_def Let_def)
      qed
      with Inr show ?thesis by simp
    qed
  qed
  have e: "faults MkdirTemp \<longrightarrow>
        mainRun E faults fuel ordA ordB tmp helpEntries = Some (Aborted (StepFailed MkdirTemp) [] [])"
    by (simp add: mainRun_def)
  have f: "\<not> faults MkdirTemp \<and> faults GitClone \<longrightarrow>
        mainRun E faults fuel ordA ordB tmp helpEntries = Some (Aborted (StepFailed GitClone) [] [])"
    by (simp add: mainRun_def)
  have g: "\<not> faults MkdirTemp \<and> \<not> faults GitClone
        \<and> parseMkdocs E (joinPath [tmp, ''mkdocs.yml'']) = Inr cfg \<longrightarrow>
        (mainRun E faults fuel ordA ordB tmp helpEntries \<noteq> None \<longleftrightarrow> nestsNodes E tmp fuel (Nav cfg))
        \<and> (nestsNodes E tmp fuel (Nav cfg) \<longrightarrow>
             (\<exists>st'. collectDocs E fuel tmp = Some (Inr st')
                   \<and> mainRun E faults fuel ordA ordB tmp helpEntries
                       = Some (writeDatabase E faults ordA ordB tmp helpEntries (out st'))))
        \<and> (hasPrefix v ''!include ''
             \<and> parseMkdocs E (joinPath [tmp, trimSpace (trimPrefix v ''!include '')]) = Inr cfg
             \<and> Node MappingNode x [key, Node ScalarNode v c] \<in> set (Nav cfg) \<longrightarrow>
             mainRun E faults fuel ordA ordB tmp helpEntries = None)"
  proof
    assume h: "\<not> faults MkdirTemp \<and> \<not> faults GitClone
        \<and> parseMkdocs E (joinPath [tmp, ''mkdocs.yml'']) = Inr cfg"
    let ?dd = "joinPath [tmp, if DocsDir cfg = [] then ''docs'' else DocsDir cfg]"
    let ?w = "walkNav E fuel (Nav cfg) ?dd tmp nilSlice initState"
    have col: "collectDocs E fuel tmp = map_option Inr ?w"
      using h by (simp add: collectDocs_def Let_def)
    have run: "mainRun E faults fuel ordA ordB tmp helpEntries
         = (case ?w of None \<Rightarrow> None
            | Some st' \<Rightarrow> Some (writeDatabase E faults ordA ordB tmp helpEntries (out st')))"
      using h by (cases ?w) (simp_all add: mainRun_def col)
    have iff: "?w \<noteq> None \<longleftrightarrow> nestsNodes E tmp fuel (Nav cfg)"
      using walk_total(2)[of E tmp fuel "Nav cfg" ?dd nilSlice initState]
        walk_nests(2)[of E fuel "Nav cfg" ?dd tmp nilSlice initState]
      by blast
    have g1: "mainRun E faults fuel ordA ordB tmp helpEntries \<noteq> None \<longleftrightarrow> nestsNodes E tmp fuel (Nav cfg)"
      using iff unfolding run by (cases ?w) simp_all
    have g2: "nestsNodes E tmp fuel (Nav cfg) \<longrightarrow>
             (\<exists>st'. collectDocs E fuel tmp = Some (Inr st')
                   \<and> mainRun E faults fuel ordA ordB tmp helpEntries
                       = Some (writeDatabase E faults ordA ordB tmp helpEntries (out st')))"
    proof
      assume "nestsNodes E tmp fuel (Nav cfg)"
      with iff obtain st' where w: "?w = Some st'" by auto
      then have "collectDocs E fuel tmp = Some (Inr st')
                   \<and> mainRun E faults fuel ordA ordB tmp helpEntries
                       = Some (writeDatabase E faults ordA ordB tmp helpEntries (out st'))"
        unfolding run col by simp
      then show "\<exists>st'. collectDocs E fuel tmp = Some (Inr st')
                   \<and> mainRun E faults fuel ordA ordB tmp helpEntries
                       = Some (writeDatabase E faults ordA ordB tmp helpEntries (out st'))" ..
    qed
    have g3: "hasPrefix v ''!include ''
             \<and> parseMkdocs E (joinPath [tmp, trimSpace (trimPrefix v ''!include '')]) = Inr cfg
             \<and> Node MappingNode x [key, Node ScalarNode v c] \<in> set (Nav cfg) \<longrightarrow>
             mainRun E faults fuel ordA ordB tmp helpEntries = None"
    proof
      assume s: "hasPrefix v ''!include ''
             \<and> parseMkdocs E (joinPath [tmp, trimSpace (trimPrefix v ''!include '')]) = Inr cfg
             \<and> Node MappingNode x [key, Node ScalarNode v c] \<in> set (Nav cfg)"
      then have "\<not> nestsNodes E tmp fuel (Nav cfg)"
        using self_inclusion_unbounded[of v E tmp cfg x key c fuel] by blast
      with g1 show "mainRun E faults fuel ordA ordB tmp helpEntries = None" by blast
    qed
    from g1 g2 g3 show "(mainRun E faults fuel ordA ordB tmp helpEntries \<noteq> None \<longleftrightarrow> nestsNodes E tmp fuel (Nav cfg))
        \<and> (nestsNodes E tmp fuel (Nav cfg) \<longrightarrow>
             (\<exists>st'. collectDocs E fuel tmp = Some (Inr st')
                   \<and> mainRun E faults fuel ordA ordB tmp helpEntries
                       = Some (writeDatabase E faults ordA ordB tmp helpEntries (out st'))))
        \<and> (hasPrefix v ''!include ''
             \<and> parseMkdocs E (joinPath [tmp, trimSpace (trimPrefix v ''!include '')]) = Inr cfg
             \<and> Node MappingNode x [key, Node ScalarNode v c] \<in> set (Nav cfg) \<longrightarrow>
             mainRun E faults fuel ordA ordB tmp helpEntries = None)"
      by (intro conjI)
  qed
  have i: "find faults (databaseSteps helpEntries) = None \<longrightarrow>
        writeDatabase E faults ordA ordB tmp helpEntries docs
          = Completed (fst (writeTables E ordA ordB tmp helpEntries docs))
                      (snd (writeTables E ordA ordB tmp helpEntries docs))"
    using writeDatabase_completed by blast
  have j: "find faults (databaseSteps helpEntries) = Some s \<longrightarrow>
        (\<exists>rows. writeDatabase E faults ordA ordB tmp helpEntries docs = Aborted (StepFailed s) rows [])"
    using writeDatabase_aborted by blast
  from a b c d e f g i j show ?thesis by (intro conjI)
qed

text \<open>
  C9, witness: the root configuration lists a missing page, an external link, an
  inclusion whose file is missing, an inclusion whose file does not parse, and the page
  \<open>a.md\<close>. The walk returns the entry for \<open>a.md\<close> and three warnings, and with no
  failing step the run completes with that entry as the catalog; when creating the
  schema fails, the run ends there. In the repository of the recovery examples there
  is no root configuration at all, and the run ends with the read error.
\<close>

theorem error_propagation_witness:
  "parseMkdocs faultyEnv (joinPath [''/r'', ''mkdocs.yml''])
      = Inr \<lparr>SiteName = ''Docs'', DocsDir = [], Nav = faultyNav\<rparr>
   \<and> nestsNodes faultyEnv ''/r'' 0 faultyNav
   \<and> map_option (map_sum id (\<lambda>st. (map path (out st), logged st))) (collectDocs faultyEnv 0 ''/r'')
      = Some (Inr ([''Good''],
                   [DocWarning ''missing.md'' ReadError,
                    IncludeWarning ''./sub/mkdocs.yml'' ReadError,
                    IncludeWarning ''./bad/mkdocs.yml'' ParseError]))
   \<and> mainRun faultyEnv (\<lambda>s. False) 0 (\<lambda>i. []) (\<lambda>i. []) ''/r'' None
      = Some (Completed [\<lparr>path = ''Good'', file = ''docs/a.md'', title = ''A'', keywords = [],
                          content = ''# A'', exclude = False\<rparr>] [])
   \<and> mainRun faultyEnv (\<lambda>s. s = CreateSchema) 0 (\<lambda>i. []) (\<lambda>i. []) ''/r'' None
      = Some (Aborted (StepFailed CreateSchema) [] [])
   \<and> parseMkdocs recoveryEnv (joinPath [''/r'', ''mkdocs.yml'']) = Inl ReadError
   \<and> mainRun recoveryEnv (\<lambda>s. False) 0 (\<lambda>i. []) (\<lambda>i. []) ''/r'' None
      = Some (Aborted (RootConfig ReadError) [] [])"
proof -
  have p: "parseMkdocs faultyEnv (joinPath [''/r'', ''mkdocs.yml''])
      = Inr \<lparr>SiteName = ''Docs'', DocsDir = [], Nav = faultyNav\<rparr>"
    by code_simp
  have n: "nestsNodes faultyEnv ''/r'' 0 faultyNav" by code_simp
  have c: "map_option (map_sum id (\<lambda>st. (map path (out st), logged st))) (collectDocs faultyEnv 0 ''/r'')
      = Some (Inr ([''Good''],
                   [DocWarning ''missing.md'' ReadError,
                    IncludeWarning ''./sub/mkdocs.yml'' ReadError,
                    IncludeWarning ''./bad/mkdocs.yml'' ParseError]))"
    by code_simp
  have o: "map_option (map_sum id out) (collectDocs faultyEnv 0 ''/r'')
      = Some (Inr [\<lparr>path = ''Good'', file = ''docs/a.md'', title = ''A'', keywords = [],
                          content = ''# A'', exclude = False\<rparr>])"
    by code_simp
  have q: "parseMkdocs recoveryEnv (joinPath [''/r'', ''mkdocs.yml'']) = Inl ReadError"
    by code_simp
  note T = error_propagation[where E = faultyEnv and fuel = 0 and tmp = "''/r''"
      and ordA = "\<lambda>i. []" and ordB = "\<lambda>i. []" and helpEntries = None
      and cfg = "\<lparr>SiteName = ''Docs'', DocsDir = [], Nav = faultyNav\<rparr>"]
  have "\<exists>st'. collectDocs faultyEnv 0 ''/r'' = Some (Inr st')
          \<and> mainRun faultyEnv (\<lambda>s. False) 0 (\<lambda>i. []) (\<lambda>i. []) ''/r'' None
              = Some (writeDatabase faultyEnv (\<lambda>s. False) (\<lambda>i. []) (\<lambda>i. []) ''/r'' None (out st'))"
    using T[where faults = "\<lambda>s. False", THEN conjunct2, THEN conjunct2, THEN conjunct2, THEN conjunct2,
        THEN conjunct2, THEN conjunct2, THEN conjunct1] p n
    by simp
  then obtain st' where s: "collectDocs faultyEnv 0 ''/r'' = Some (Inr st')"
    and r: "mainRun faultyEnv (\<lambda>s. False) 0 (\<lambda>i. []) (\<lambda>i. []) ''/r'' None
              = Some (writeDatabase faultyEnv (\<lambda>s. False) (\<lambda>i. []) (\<lambda>i. []) ''/r'' None (out st'))"
    by blast
  from o s have os: "out st' = [\<lparr>path = ''Good'', file = ''docs/a.md'', title = ''A'', keywords = [],
                          content = ''# A'', exclude = False\<rparr>]"
    by simp
  have m1: "mainRun faultyEnv (\<lambda>s. False) 0 (\<lambda>i. []) (\<lambda>i. []) ''/r'' None
      = Some (Completed [\<lparr>path = ''Good'', file = ''docs/a.md'', title = ''A'', keywords = [],
                          content = ''# A'', exclude = False\<rparr>] [])"
    unfolding r os by (simp add: writeDatabase_def insertOrIgnore_def)
  have "\<exists>st'. collectDocs faultyEnv 0 ''/r'' = Some (Inr st')
          \<and> mainRun faultyEnv (\<lambda>s. s = CreateSchema) 0 (\<lambda>i. []) (\<lambda>i. []) ''/r'' None
              = Some (writeDatabase faultyEnv (\<lambda>s. s = CreateSchema) (\<lambda>i. []) (\<lambda>i. []) ''/r'' None (out st'))"
    using T[where faults = "\<lambda>s. s = CreateSchema", THEN conjunct2, THEN conjunct2, THEN conjunct2, THEN conjunct2,
        THEN conjunct2, THEN conjunct2, THEN conjunct1] p n
    by simp
  then have m2: "mainRun faultyEnv (\<lambda>s. s = CreateSchema) 0 (\<lambda>i. []) (\<lambda>i. []) ''/r'' None
      = Some (Aborted (StepFailed CreateSchema) [] [])"
    by (auto simp: writeDatabase_def)
  from error_propagation[where E = recoveryEnv and faults = "\<lambda>s. False" and fuel = 0 and err = ReadError
      and tmp = "''/r''" and ordA = "\<lambda>i. []" and ordB = "\<lambda>i. []" and helpEntries = None
      and ds = "[]" and hs = "[]"] q
  have m3: "mainRun recoveryEnv (\<lambda>s. False) 0 (\<lambda>i. []) (\<lambda>i. []) ''/r'' None
      = Some (Aborted (RootConfig ReadError) [] [])"
    by simp
  from p n c m1 m2 q m3 show ?thesis by (intro conjI)
qed
end
